theory Spec2Isabelle
  imports Complex_Main "HOL-Library.Sublist"
begin

section \<open>Study-Planner: the response-to-roadmap pipeline\<close>

text \<open>
  A shallow embedding of the Python functions of the repository that turn a model
  reply into a tracked roadmap:
  \<^item> \<^verbatim>\<open>SupabaseDB.get_roadmap_progress\<close> (backend/database.py),
  \<^item> \<^verbatim>\<open>GeminiClient._detect_search_query\<close>, \<^verbatim>\<open>GeminiClient.chat\<close>,
    \<^verbatim>\<open>GeminiClient.parse_mermaid_diagram\<close> (backend/gemini_client.py),
  \<^item> \<^verbatim>\<open>extract_mermaid_diagrams\<close>, \<^verbatim>\<open>validate_and_clean_mermaid\<close> (frontend/front.py).

  Conventions. A Python \<^verbatim>\<open>str\<close> is a \<^typ>\<open>string\<close>; a \<^typ>\<open>char\<close> stands for the code
  point of the same number, so the texts covered are those over the code points 0..255.
  The character classes below (\<^verbatim>\<open>str.isspace\<close>, \<^verbatim>\<open>\s\<close>, \<^verbatim>\<open>\w\<close>, \<^verbatim>\<open>str.lower\<close>) are
  the ones of Python 3 on that range. A Python \<^verbatim>\<open>float\<close> quotient is the exact quotient
  in \<^typ>\<open>real\<close>. The remote services (the Supabase tables, the web search, the language
  model) are not code of the repository: what they answer is a parameter of the model.
\<close>

section \<open>Python strings\<close>

text \<open>\<^verbatim>\<open>str.isspace\<close> of one character; \<^verbatim>\<open>\s\<close> of the module \<^verbatim>\<open>re\<close> is the same class.\<close>

definition isspace :: "char \<Rightarrow> bool" where
  "isspace c = (let n = (of_char c :: nat) in
     (9 \<le> n \<and> n \<le> 13) \<or> (28 \<le> n \<and> n \<le> 32) \<or> n = 133 \<or> n = 160)"

text \<open>\<^verbatim>\<open>str.lower\<close>: the capital letters of ASCII and of Latin-1 move up by 32.\<close>

definition lower_char :: "char \<Rightarrow> char" where
  "lower_char c = (let n = (of_char c :: nat) in
     if (65 \<le> n \<and> n \<le> 90) \<or> (192 \<le> n \<and> n \<le> 214) \<or> (216 \<le> n \<and> n \<le> 222)
     then char_of (n + 32) else c)"

definition lower :: "string \<Rightarrow> string" where
  "lower s = map lower_char s"

definition lstrip :: "string \<Rightarrow> string" where
  "lstrip s = dropWhile isspace s"

definition rstrip :: "string \<Rightarrow> string" where
  "rstrip s = rev (dropWhile isspace (rev s))"

definition strip :: "string \<Rightarrow> string" where
  "strip s = rstrip (lstrip s)"

text \<open>\<^verbatim>\<open>s.startswith(p)\<close> is \<^term>\<open>prefix p s\<close>; \<^verbatim>\<open>s[n:]\<close> is \<^term>\<open>drop n s\<close>.\<close>

text \<open>\<^verbatim>\<open>s.find(x)\<close>, with \<open>None\<close> for \<open>-1\<close>; \<^verbatim>\<open>x in s\<close> is that the search succeeds.\<close>

fun find_str :: "string \<Rightarrow> string \<Rightarrow> nat option" where
  "find_str x [] = (if x = [] then Some 0 else None)"
| "find_str x (c # s) =
     (if prefix x (c # s) then Some 0 else map_option Suc (find_str x s))"

definition contains :: "string \<Rightarrow> string \<Rightarrow> bool" where
  "contains x s = (find_str x s \<noteq> None)"

text \<open>\<^verbatim>\<open>str(n)\<close> of a natural number.\<close>

fun str_nat :: "nat \<Rightarrow> string" where
  "str_nat n = (if n < 10 then [char_of (48 + n)]
                else str_nat (n div 10) @ [char_of (48 + n mod 10)])"

declare str_nat.simps [simp del]

text \<open>Python's truth value of an optional string: \<open>None\<close> and the empty string are false.\<close>

definition truthy :: "string option \<Rightarrow> bool" where
  "truthy x = (case x of None \<Rightarrow> False | Some s \<Rightarrow> s \<noteq> [])"

text \<open>\<^verbatim>\<open>\w\<close>: letters, digits and the underscore, with the letters and digits of Latin-1.\<close>

definition isword :: "char \<Rightarrow> bool" where
  "isword c = (let n = (of_char c :: nat) in
     (48 \<le> n \<and> n \<le> 57) \<or> (65 \<le> n \<and> n \<le> 90) \<or> (97 \<le> n \<and> n \<le> 122) \<or> n = 95
     \<or> n = 170 \<or> n = 178 \<or> n = 179 \<or> n = 181 \<or> n = 185 \<or> n = 186
     \<or> (188 \<le> n \<and> n \<le> 190) \<or> (192 \<le> n \<and> n \<le> 214) \<or> (216 \<le> n \<and> n \<le> 246)
     \<or> (248 \<le> n \<and> n \<le> 255))"

text \<open>\<^verbatim>\<open>[A-Z]\<close>.\<close>

definition isupper_az :: "char \<Rightarrow> bool" where
  "isupper_az c = (let n = (of_char c :: nat) in 65 \<le> n \<and> n \<le> 90)"

text \<open>\<^verbatim>\<open>s.split('\n')\<close>: the lines of a text; the empty text has one empty line.\<close>

fun split_nl :: "string \<Rightarrow> string list" where
  "split_nl [] = [[]]"
| "split_nl (c # s) =
     (if c = CHR ''\<newline>'' then [] # split_nl s
      else (case split_nl s of l # ls \<Rightarrow> (c # l) # ls | [] \<Rightarrow> [[c]]))"

text \<open>\<^verbatim>\<open>sep.join(xs)\<close>.\<close>

fun join :: "string \<Rightarrow> string list \<Rightarrow> string" where
  "join sep [] = []"
| "join sep [x] = x"
| "join sep (x # y # ys) = x @ sep @ join sep (y # ys)"

text \<open>\<^verbatim>\<open>s.lstrip(chars)\<close>.\<close>

definition lstrip_chars :: "string \<Rightarrow> string \<Rightarrow> string" where
  "lstrip_chars chars s = dropWhile (\<lambda>c. c \<in> set chars) s"

text \<open>\<^verbatim>\<open>s.replace(a, b)\<close> for single characters \<open>a\<close> and \<open>b\<close>.\<close>

definition replace_char :: "char \<Rightarrow> char \<Rightarrow> string \<Rightarrow> string" where
  "replace_char a b s = map (\<lambda>c. if c = a then b else c) s"

text \<open>\<^verbatim>\<open>xs.insert(1, x)\<close>.\<close>

definition insert_at1 :: "'a \<Rightarrow> 'a list \<Rightarrow> 'a list" where
  "insert_at1 x xs = take 1 xs @ [x] @ drop 1 xs"

section \<open>Regular expressions as Python's \<^verbatim>\<open>re\<close> runs them\<close>

text \<open>
  The fragment of \<^verbatim>\<open>re\<close> that the program uses. A star is always over one character
  class (\<^verbatim>\<open>\s*\<close>, \<^verbatim>\<open>\w*\<close>, \<^verbatim>\<open>.*?\<close> under \<^verbatim>\<open>DOTALL\<close>, \<^verbatim>\<open>[\s\S]*?\<close>, \<^verbatim>\<open>[^\]]+\<close>), greedy
  (\<open>StarG\<close>) or lazy (\<open>StarL\<close>). \<open>Bol\<close> and \<open>Eol\<close> are \<^verbatim>\<open>^\<close> and \<^verbatim>\<open>$\<close> without
  \<^verbatim>\<open>MULTILINE\<close>; \<open>Ahead\<close> is \<^verbatim>\<open>(?=...)\<close>; \<open>Grp\<close> is a capturing group.
\<close>

datatype re =
    Cls "char \<Rightarrow> bool"
  | Eps
  | Seq re re
  | Alt re re
  | StarG "char \<Rightarrow> bool"
  | StarL "char \<Rightarrow> bool"
  | Grp re
  | Bol
  | Eol
  | Ahead re

text \<open>
  The groups closed so far, as pairs of positions, in the order of closing. The patterns
  of the program have their groups one after the other and outside any alternative, so
  that the k-th pair is group k.
\<close>

type_synonym caps = "(nat \<times> nat) list"

text \<open>
  \<open>run r s (i, g)\<close>: all the ways in which \<open>r\<close> matches in \<open>s\<close> from position \<open>i\<close>, as
  end positions with the groups, in the order in which the backtracking matcher tries
  them. A greedy star gives the longest run first, a lazy one the shortest; an
  alternative gives its left branch first; a lookahead consumes nothing and is not
  re-entered.
\<close>

fun run :: "re \<Rightarrow> string \<Rightarrow> nat \<times> caps \<Rightarrow> (nat \<times> caps) list" where
  "run (Cls P) s (i, g) = (if i < length s \<and> P (s ! i) then [(Suc i, g)] else [])"
| "run Eps s (i, g) = [(i, g)]"
| "run (Seq a b) s (i, g) = concat (map (run b s) (run a s (i, g)))"
| "run (Alt a b) s (i, g) = run a s (i, g) @ run b s (i, g)"
| "run (StarG P) s (i, g) =
     map (\<lambda>k. (i + k, g)) (rev [0..<Suc (length (takeWhile P (drop i s)))])"
| "run (StarL P) s (i, g) =
     map (\<lambda>k. (i + k, g)) [0..<Suc (length (takeWhile P (drop i s)))]"
| "run (Grp a) s (i, g) = map (\<lambda>(j, g'). (j, g' @ [(i, j)])) (run a s (i, g))"
| "run Bol s (i, g) = (if i = 0 then [(i, g)] else [])"
| "run Eol s (i, g) =
     (if i = length s \<or> (Suc i = length s \<and> s ! i = CHR ''\<newline>'') then [(i, g)] else [])"
| "run (Ahead a) s (i, g) = (if run a s (i, g) = [] then [] else [(i, g)])"

text \<open>
  One attempt at position \<open>i\<close>: the first way that succeeds. After an empty match the
  next attempt at the same position must advance, that is, must not be empty again.
\<close>

definition match_at :: "re \<Rightarrow> string \<Rightarrow> bool \<Rightarrow> nat \<Rightarrow> (nat \<times> caps) option" where
  "match_at r s must_advance i =
     (case filter (\<lambda>(j, g). \<not> (must_advance \<and> j = i)) (run r s (i, [])) of
        [] \<Rightarrow> None
      | m # ms \<Rightarrow> Some m)"

text \<open>\<^verbatim>\<open>search\<close>: the leftmost position from \<open>i\<close> on at which an attempt succeeds.\<close>

function search :: "re \<Rightarrow> string \<Rightarrow> bool \<Rightarrow> nat \<Rightarrow> (nat \<times> nat \<times> caps) option" where
  "search r s must_advance i =
     (if length s < i then None
      else (case match_at r s must_advance i of
              Some (j, g) \<Rightarrow> Some (i, j, g)
            | None \<Rightarrow> search r s False (Suc i)))"
  by pat_completeness auto
termination
  by (relation "measure (\<lambda>(r, s, a, i). Suc (length s) - i)") auto

declare search.simps [simp del]

text \<open>
  The loop shared by \<^verbatim>\<open>findall\<close> and \<^verbatim>\<open>sub\<close>: the successive matches from
  \<open>pos\<close> on, as (start, end, groups). The next search starts where the match ended, and
  must advance when the match was empty.
\<close>

function matches_from :: "re \<Rightarrow> string \<Rightarrow> bool \<Rightarrow> nat \<Rightarrow> (nat \<times> nat \<times> caps) list" where
  "matches_from r s must_advance pos =
     (case search r s must_advance pos of
        None \<Rightarrow> []
      | Some (i, j, g) \<Rightarrow> (i, j, g) # matches_from r s (j = i) j)"
  by pat_completeness auto
termination
proof (relation "measure (\<lambda>(r, s, a, pos). 2 * (Suc (length s) - pos) + (if a then 0 else 1))",
       goal_cases)
  case 1
  show ?case by simp
next
  case (2 r s must_advance pos x2 i y j g)
  have run_bound: "\<And>j' g'. (j', g') \<in> set (run r' s' st) \<Longrightarrow> fst st \<le> length s'
                    \<Longrightarrow> fst st \<le> j' \<and> j' \<le> length s'" for r' s' st
  proof (induction r' s' st rule: run.induct)
    case (3 a b s i g)
    from "3.prems"(1) obtain m where m: "m \<in> set (run a s (i, g))" "(j', g') \<in> set (run b s m)"
      by auto
    obtain k h where mk: "m = (k, h)" by (cases m)
    from "3.IH"(1) [of k h] m(1) "3.prems"(2) mk have k: "i \<le> k \<and> k \<le> length s" by simp
    from "3.IH"(2) [OF m(1), of j' g'] m(2) k mk have "k \<le> j' \<and> j' \<le> length s" by simp
    with k show ?case by simp
  next
    case (5 P s i g)
    have "length (takeWhile P (drop i s)) \<le> length s - i"
      by (metis length_drop length_takeWhile_le)
    with 5 show ?case by auto
  next
    case (6 P s i g)
    have "length (takeWhile P (drop i s)) \<le> length s - i"
      by (metis length_drop length_takeWhile_le)
    with 6 show ?case by auto
  qed (auto split: if_splits)
  have search_bound: "search r s a p = Some (i', j', g') \<Longrightarrow>
          p \<le> i' \<and> i' \<le> j' \<and> j' \<le> length s \<and> (a \<and> i' = p \<longrightarrow> i' < j')" for a p i' j' g'
  proof (induction r s a p rule: search.induct)
    case (1 r s a p)
    show ?case
    proof (cases "match_at r s a p")
      case None
      with "1.prems" have le: "\<not> length s < p" and "search r s False (Suc p) = Some (i', j', g')"
        by (auto simp: search.simps [of r s a p] split: if_splits)
      with "1.IH" [OF le None] show ?thesis by auto
    next
      case (Some m)
      with "1.prems" have le: "\<not> length s < p" and m: "m = (j', g')" and i: "i' = p"
        by (auto simp: search.simps [of r s a p] split: if_splits prod.splits)
      from Some m obtain ms where
        "filter (\<lambda>(j, g). \<not> (a \<and> j = p)) (run r s (p, [])) = (j', g') # ms"
        by (auto simp: match_at_def split: list.splits)
      then have "(j', g') \<in> set (filter (\<lambda>(j, g). \<not> (a \<and> j = p)) (run r s (p, [])))"
        by (metis list.set_intros(1))
      then have "(j', g') \<in> set (run r s (p, []))" and "\<not> (a \<and> j' = p)" by auto
      with run_bound [of j' g' r s "(p, [])"] le i show ?thesis by auto
    qed
  qed
  from 2 have "search r s must_advance pos = Some (i, j, g)" by simp
  from search_bound [OF this] show ?case by auto
qed

declare matches_from.simps [simp del]


text \<open>
  \<^verbatim>\<open>re.findall\<close>: the whole matches for a pattern without group, the text of the group
  for a pattern with one group, the pair of texts for a pattern with two groups.
\<close>

definition group_text :: "string \<Rightarrow> nat \<times> nat \<Rightarrow> string" where
  "group_text s ab = take (snd ab - fst ab) (drop (fst ab) s)"

definition findall0 :: "re \<Rightarrow> string \<Rightarrow> string list" where
  "findall0 r s = map (\<lambda>(i, j, g). group_text s (i, j)) (matches_from r s False 0)"

definition findall1 :: "re \<Rightarrow> string \<Rightarrow> string list" where
  "findall1 r s =
     map (\<lambda>(i, j, g). case g of [a] \<Rightarrow> group_text s a | _ \<Rightarrow> []) (matches_from r s False 0)"

definition findall2 :: "re \<Rightarrow> string \<Rightarrow> (string \<times> string) list" where
  "findall2 r s =
     map (\<lambda>(i, j, g). case g of [a, b] \<Rightarrow> (group_text s a, group_text s b) | _ \<Rightarrow> ([], []))
       (matches_from r s False 0)"

text \<open>\<^verbatim>\<open>re.sub(pattern, '', s)\<close>: the text between the matches.\<close>

fun remove_matches :: "string \<Rightarrow> nat \<Rightarrow> (nat \<times> nat \<times> caps) list \<Rightarrow> string" where
  "remove_matches s pos [] = drop pos s"
| "remove_matches s pos ((i, j, g) # ms) = take (i - pos) (drop pos s) @ remove_matches s j ms"

definition sub_empty :: "re \<Rightarrow> string \<Rightarrow> string" where
  "sub_empty r s = remove_matches s 0 (matches_from r s False 0)"

text \<open>
  A sequence of patterns; a literal string; a literal string under \<^verbatim>\<open>IGNORECASE\<close>;
  \<^verbatim>\<open>.\<close> under \<^verbatim>\<open>DOTALL\<close> and \<^verbatim>\<open>[\s\S]\<close>.
\<close>

fun seqs :: "re list \<Rightarrow> re" where
  "seqs [] = Eps"
| "seqs (r # rs) = Seq r (seqs rs)"

definition lit :: "string \<Rightarrow> re" where
  "lit w = seqs (map (\<lambda>x. Cls (\<lambda>c. c = x)) w)"

definition lit_i :: "string \<Rightarrow> re" where
  "lit_i w = seqs (map (\<lambda>x. Cls (\<lambda>c. lower_char c = lower_char x)) w)"

definition anychar :: "char \<Rightarrow> bool" where
  "anychar c = True"

section \<open>Diagram extraction (frontend/front.py)\<close>

text \<open>
  The four patterns of \<^verbatim>\<open>extract_mermaid_diagrams\<close>:
  \<^verbatim>\<open>```\s*mermaid\s*(.*?)\s*```\<close> under \<^verbatim>\<open>DOTALL | IGNORECASE\<close>,
  \<^verbatim>\<open>```(?:\w+)?\s*(.*?)\s*```\<close> and \<^verbatim>\<open>~~~\s*(.*?)\s*~~~\<close> under \<^verbatim>\<open>DOTALL\<close>, and
  \<^verbatim>\<open>(?:(?:^|\n)(?:flowchart|graph)[\s\S]*?)(?=\n{2,}|$)\<close> under \<^verbatim>\<open>IGNORECASE\<close>.
\<close>

definition mermaid_fence_re :: re where
  "mermaid_fence_re =
     seqs [lit ''```'', StarG isspace, lit_i ''mermaid'', StarG isspace, Grp (StarL anychar),
           StarG isspace, lit ''```'']"

definition generic_fence_re :: re where
  "generic_fence_re =
     seqs [lit ''```'', Alt (Seq (Cls isword) (StarG isword)) Eps, StarG isspace,
           Grp (StarL anychar), StarG isspace, lit ''```'']"

definition tilde_fence_re :: re where
  "tilde_fence_re =
     seqs [lit ''~~~'', StarG isspace, Grp (StarL anychar), StarG isspace, lit ''~~~'']"

definition isnl :: "char \<Rightarrow> bool" where
  "isnl c = (c = CHR ''\<newline>'')"

definition inline_re :: re where
  "inline_re =
     seqs [Alt Bol (lit ''\<newline>''), Alt (lit_i ''flowchart'') (lit_i ''graph''), StarL anychar,
           Ahead (Alt (seqs [Cls isnl, Cls isnl, StarG isnl]) Eol)]"

text \<open>The test of the second strategy on a stripped block.\<close>

definition looks_like_mermaid :: "string \<Rightarrow> bool" where
  "looks_like_mermaid c =
     (let low = lower c in
      contains ''flowchart'' low \<or> contains ''graph'' low \<or> contains ''classdef'' low
      \<or> contains ''-->'' c \<or> (contains ''['' c \<and> contains '']'' c))"

text \<open>
  The three blocks of the function, each as the list it appends to \<^verbatim>\<open>diagrams\<close>:
  fenced blocks tagged mermaid, fenced blocks that look like a diagram, unfenced blocks.
\<close>

definition strategy1 :: "string \<Rightarrow> string list" where
  "strategy1 response_text =
     map strip (filter (\<lambda>m. m \<noteq> [] \<and> strip m \<noteq> []) (findall1 mermaid_fence_re response_text))"

definition strategy2 :: "string \<Rightarrow> string list" where
  "strategy2 response_text =
     filter looks_like_mermaid
       (filter (\<lambda>c. c \<noteq> [])
          (map strip (findall1 generic_fence_re response_text
                      @ findall1 tilde_fence_re response_text)))"

definition strategy3 :: "string \<Rightarrow> string list" where
  "strategy3 response_text =
     filter (\<lambda>b. b \<noteq> []) (map strip (findall0 inline_re response_text))"

definition extract_mermaid_diagrams :: "string \<Rightarrow> string list" where
  "extract_mermaid_diagrams response_text =
     (if response_text = [] then []
      else
        (let diagrams1 = strategy1 response_text;
             diagrams2 = (if diagrams1 = [] then diagrams1 @ strategy2 response_text
                          else diagrams1);
             diagrams3 = (if diagrams2 = [] then diagrams2 @ strategy3 response_text
                          else diagrams2)
         in diagrams3))"

text \<open>
  The reading of the specification for the first strategy. A text with fenced blocks
  tagged mermaid is given by its blocks, in document order, and the text after the last
  one. A block is written as the text before it, a fence, the white space between the
  fence and the tag, the tag, the inner content, and the closing fence.
\<close>

record mermaid_block =
  before :: string
  gap :: string
  tag :: string
  inner :: string

fun render :: "mermaid_block list \<Rightarrow> string \<Rightarrow> string" where
  "render [] rest = rest"
| "render (b # bs) rest =
     before b @ ''```'' @ gap b @ tag b @ inner b @ ''```'' @ render bs rest"

text \<open>
  A text opens a tagged block when it begins with a fence that is followed, after any white
  space, by the tag in any letter case; \<open>no_opener\<close>: no suffix of the text does.
\<close>

definition opener :: "string \<Rightarrow> bool" where
  "opener u = (prefix ''```'' u \<and> prefix ''mermaid'' (lower (dropWhile isspace (drop 3 u))))"

fun no_opener :: "string \<Rightarrow> bool" where
  "no_opener [] = True"
| "no_opener (c # s) = (\<not> opener (c # s) \<and> no_opener s)"

text \<open>
  The blocks are the tagged blocks of the text: no tagged block opens in the text before a
  block or after the last one (other fences may occur there), the gap is white space, the
  tag is \<^verbatim>\<open>mermaid\<close> in some letter case, and no fence marker lies in the inner content
  or is completed by the closing fence.
\<close>

definition wf_block :: "mermaid_block \<Rightarrow> bool" where
  "wf_block b =
     (no_opener (before b) \<and> list_all isspace (gap b) \<and> lower (tag b) = ''mermaid''
      \<and> \<not> sublist ''```'' (inner b @ ''``''))"

definition wf_doc :: "mermaid_block list \<Rightarrow> string \<Rightarrow> bool" where
  "wf_doc bs rest = (list_all wf_block bs \<and> no_opener rest)"

text \<open>The trimmed inner contents of the blocks that are not blank.\<close>

definition contents :: "mermaid_block list \<Rightarrow> string list" where
  "contents bs = filter (\<lambda>c. c \<noteq> []) (map (\<lambda>b. strip (inner b)) bs)"

text \<open>
  A text has a fenced block for a marker when the marker occurs and occurs again after its
  first occurrence; it has a keyword line when it, or one of its lines, begins with
  \<^verbatim>\<open>flowchart\<close> or \<^verbatim>\<open>graph\<close> in any letter case.
\<close>

definition has_fenced :: "string \<Rightarrow> string \<Rightarrow> bool" where
  "has_fenced f t =
     (case find_str f t of None \<Rightarrow> False | Some i \<Rightarrow> contains f (drop (i + length f) t))"

definition keyword_line :: "string \<Rightarrow> bool" where
  "keyword_line t =
     (let low = lower t in
      prefix ''flowchart'' low \<or> prefix ''graph'' low
      \<or> contains ''\<newline>flowchart'' low \<or> contains ''\<newline>graph'' low)"

text \<open>The part of the tagged pattern after the tag; the text of the group of a match.\<close>

definition tail_re :: re where
  "tail_re = seqs [StarG isspace, Grp (StarL anychar), StarG isspace, lit ''```'']"

definition group1 :: "string \<Rightarrow> nat \<times> nat \<times> caps \<Rightarrow> string" where
  "group1 s m = (case m of (i, j, g) \<Rightarrow> (case g of [a] \<Rightarrow> group_text s a | _ \<Rightarrow> []))"

text \<open>
  A reply with three tagged blocks, the second one blank, and an untagged block between
  them; a reply with one blank tagged block.
\<close>

definition sample_blocks :: "mermaid_block list" where
  "sample_blocks =
     [\<lparr> before = ''Plan:\<newline>'', gap = '' '', tag = ''Mermaid'',
        inner = ''\<newline>graph TD\<newline>A-->B\<newline>'' \<rparr>,
      \<lparr> before = ''\<newline>and\<newline>'', gap = [], tag = ''mermaid'', inner = '' '' \<rparr>,
      \<lparr> before = ''\<newline>```python\<newline>x = 1\<newline>```\<newline>'', gap = ''\<newline>'', tag = ''MERMAID'',
        inner = ''flowchart LR\<newline>C-->D'' \<rparr>]"

definition empty_block :: "mermaid_block list" where
  "empty_block = [\<lparr> before = [], gap = [], tag = ''mermaid'', inner = ''\<newline>'' \<rparr>]"

text \<open>A reply with a tagged block, an untagged block and an unfenced diagram, for examples.\<close>

definition cascade_text :: string where
  "cascade_text = ''graph x\<newline>\<newline>```mermaid\<newline>A-->B\<newline>```\<newline>```\<newline>C-->D\<newline>```''"

section \<open>Diagram sanitation (frontend/front.py)\<close>

text \<open>The pattern \<^verbatim>\<open>^```\w*|```$\<close> of \<^verbatim>\<open>validate_and_clean_mermaid\<close>.\<close>

definition fence_strip_re :: re where
  "fence_strip_re = Alt (seqs [Bol, lit ''```'', StarG isword]) (seqs [lit ''```'', Eol])"

definition color_defs :: string where
  "color_defs =
     ''classDef foundation fill:#4d94ff,color:#000,stroke:#333,stroke-width:2px\<newline>''
     @ ''classDef core fill:#33cc33,color:#000,stroke:#333,stroke-width:2px\<newline>''
     @ ''classDef practice fill:#ff9900,color:#000,stroke:#333,stroke-width:2px\<newline>''
     @ ''classDef project fill:#9933ff,color:#fff,stroke:#333,stroke-width:2px\<newline>''
     @ ''classDef review fill:#ff3333,color:#fff,stroke:#333,stroke-width:2px''"

text \<open>
  The cleaning steps up to \<^verbatim>\<open>low = cleaned.lower()\<close>: fences off, stripped; the
  non-breaking space replaced (the four replacements of curly quotes concern code points
  above 255 and change nothing in these texts); each line without its leading \<^verbatim>\<open>>\<close> and
  blanks and its trailing white space; empty lines and \<^verbatim>\<open>%% mermaid\<close> lines dropped;
  joined and stripped.
\<close>

definition clean_lines :: "string \<Rightarrow> string" where
  "clean_lines diagram_code =
     (let cleaned1 = strip (sub_empty fence_strip_re diagram_code);
          cleaned2 = replace_char (CHR 0xA0) CHR '' '' cleaned1;
          lines1 = map (\<lambda>ln. rstrip (lstrip_chars ''> '' ln)) (split_nl cleaned2);
          lines2 = filter (\<lambda>ln. ln \<noteq> [] \<and> \<not> prefix ''%% mermaid'' ln) lines1
      in strip (join ''\<newline>'' lines2))"

text \<open>
  The header step: \<open>low\<close> is the lowered text; \<^verbatim>\<open>'flowchart' in low\<close> followed by
  \<^verbatim>\<open>low.find('flowchart')\<close> is one search.
\<close>

definition ensure_header :: "string \<Rightarrow> string \<Rightarrow> string" where
  "ensure_header low cleaned =
     (if \<not> (prefix ''flowchart'' low \<or> prefix ''graph'' low \<or> prefix ''sequence'' low
             \<or> prefix ''gantt'' low) then
        (case find_str ''flowchart'' low of
           Some idx \<Rightarrow> drop idx cleaned
         | None \<Rightarrow>
             (case find_str ''graph'' low of
                Some idx \<Rightarrow> drop idx cleaned
              | None \<Rightarrow> ''flowchart TD\<newline>'' @ cleaned))
      else cleaned)"

text \<open>
  The class definitions: the test reads \<open>low\<close>, computed before the header step, and
  \<open>cleaned\<close>, the text after it.
\<close>

definition add_class_defs :: "string \<Rightarrow> string \<Rightarrow> string" where
  "add_class_defs low cleaned =
     (if \<not> contains ''classdef'' low \<and> contains '':::'' cleaned then
        (let parts = split_nl cleaned in
         if length parts > 0 then join ''\<newline>'' (insert_at1 color_defs parts) else cleaned)
      else cleaned)"

definition validate_and_clean_mermaid :: "string \<Rightarrow> string option" where
  "validate_and_clean_mermaid diagram_code =
     (if diagram_code = [] then None
      else (let cleaned = clean_lines diagram_code;
                low = lower cleaned
            in Some (add_class_defs low (ensure_header low cleaned))))"




text \<open>A candidate that applies a class and defines none, for examples.\<close>

definition styled_text :: string where
  "styled_text = ''see graph TD\<newline>A[Start]:::core --> B[End]''"

section \<open>Roadmap items (backend/gemini_client.py)\<close>

text \<open>
  \<^verbatim>\<open>parse_mermaid_diagram\<close>, with the pattern \<^verbatim>\<open>([A-Z]\w*)\[([^\]]+)\]\<close>. An item is
  the dictionary with the keys \<^verbatim>\<open>id\<close>, \<^verbatim>\<open>title\<close> and \<^verbatim>\<open>description\<close>.
\<close>

record item =
  ident :: string
  title :: string
  description :: string

definition notrb :: "char \<Rightarrow> bool" where
  "notrb c = (c \<noteq> CHR '']'')"

definition node_pattern :: re where
  "node_pattern =
     seqs [Grp (Seq (Cls isupper_az) (StarG isword)), lit ''['',
           Grp (Seq (Cls notrb) (StarG notrb)), lit '']'']"

definition parse_mermaid_diagram :: "string \<Rightarrow> item list" where
  "parse_mermaid_diagram mermaid_code =
     map (\<lambda>(node_id, label).
            (let clean_label = strip label in
             \<lparr> ident = node_id, title = clean_label,
               description = ''Complete: '' @ clean_label \<rparr>))
       (findall2 node_pattern mermaid_code)"

text \<open>
  The parser as the specification words it, for comparison with the function above. A
  node-definition token at the start of a text: an uppercase letter, the word characters
  that follow it, an opening bracket, a label (a non-empty run of characters other than
  the closing bracket), the closing bracket. The result is the identifier, the label and
  the text after the token.
\<close>

fun spec_node_token :: "string \<Rightarrow> ((string \<times> string) \<times> string) option" where
  "spec_node_token [] = None"
| "spec_node_token (c # s) =
     (if isupper_az c then
        (case dropWhile isword s of
           [] \<Rightarrow> None
         | b # r \<Rightarrow>
             if b = CHR ''['' \<and> takeWhile (\<lambda>x. x \<noteq> CHR '']'') r \<noteq> []
                \<and> dropWhile (\<lambda>x. x \<noteq> CHR '']'') r \<noteq> []
             then Some ((c # takeWhile isword s, takeWhile (\<lambda>x. x \<noteq> CHR '']'') r),
                        tl (dropWhile (\<lambda>x. x \<noteq> CHR '']'') r))
             else None)
      else None)"

text \<open>
  The tokens of a text in the order of their first appearance: the scan goes on after a
  token, and one character further where no token starts. Identifiers are not compared,
  so a repeated identifier gives a repeated entry.
\<close>

function spec_node_tokens :: "string \<Rightarrow> (string \<times> string) list" where
  "spec_node_tokens [] = []"
| "spec_node_tokens (c # s) =
     (case spec_node_token (c # s) of
        Some (tok, rest) \<Rightarrow> tok # spec_node_tokens rest
      | None \<Rightarrow> spec_node_tokens s)"
  by pat_completeness auto
termination
proof -
  have sh: "length rest < length u" if "spec_node_token u = Some (tok, rest)" for u tok rest
  proof (cases u)
    case Nil
    with that show ?thesis by simp
  next
    case (Cons c s)
    with that obtain b r where d: "dropWhile isword s = b # r"
      and r: "rest = tl (dropWhile (\<lambda>x. x \<noteq> CHR '']'') r)"
      by (auto split: if_splits list.splits)
    have "length rest \<le> length r"
      unfolding r using length_dropWhile_le [of "\<lambda>x. x \<noteq> CHR '']''" r] by simp
    moreover have "length (b # r) \<le> length s"
      using length_dropWhile_le [of isword s] by (simp only: d)
    ultimately show ?thesis using Cons by simp
  qed
  show ?thesis
    by (relation "measure length") (auto simp del: spec_node_token.simps dest!: sh)
qed

declare spec_node_tokens.simps [simp del]

text \<open>The items of the specification: the trimmed label and the templated description.\<close>

definition spec_parse :: "string \<Rightarrow> item list" where
  "spec_parse text =
     map (\<lambda>(nid, label).
            \<lparr> ident = nid, title = strip label, description = ''Complete: '' @ strip label \<rparr>)
       (spec_node_tokens text)"

text \<open>The two group texts of a match.\<close>

definition pair_texts :: "string \<Rightarrow> nat \<times> nat \<times> caps \<Rightarrow> string \<times> string" where
  "pair_texts s m =
     (case m of (i, j, g) \<Rightarrow>
        (case g of [a, b] \<Rightarrow> (group_text s a, group_text s b) | _ \<Rightarrow> ([], [])))"

section \<open>Progress aggregation (backend/database.py)\<close>

text \<open>
  A row of the table \<^verbatim>\<open>roadmap_items\<close> as \<^verbatim>\<open>get_roadmap_items\<close> selects it. The column
  \<^verbatim>\<open>completed\<close> is read with \<^verbatim>\<open>item.get("completed", False)\<close>: \<open>None\<close> stands for
  a missing key or a null, both of which Python takes as false.
\<close>

record roadmap_item =
  row_id :: string
  item_id :: string
  row_title :: string
  row_description :: string
  completed :: "bool option"
  completed_at :: "string option"

record progress =
  total_items :: nat
  completed_items :: nat
  progress_percentage :: real
  items :: "roadmap_item list"

definition is_completed :: "roadmap_item \<Rightarrow> bool" where
  "is_completed item = (case completed item of None \<Rightarrow> False | Some b \<Rightarrow> b)"

text \<open>
  \<^verbatim>\<open>get_roadmap_progress\<close>, from the rows that \<^verbatim>\<open>get_roadmap_items\<close> returned (that
  method catches every failure of the store itself and then returns the empty list).
\<close>

definition get_roadmap_progress :: "roadmap_item list \<Rightarrow> progress" where
  "get_roadmap_progress its =
     (let total = length its;
          done = length (filter is_completed its)
      in \<lparr> total_items = total,
           completed_items = done,
           progress_percentage = (if total > 0 then real done / real total * 100 else 0),
           items = its \<rparr>)"

definition mk_item :: "string \<Rightarrow> bool \<Rightarrow> roadmap_item" where
  "mk_item i b = \<lparr> row_id = i, item_id = i, row_title = [], row_description = [],
                   completed = Some b, completed_at = None \<rparr>"

section \<open>The conversation turn (backend/gemini_client.py)\<close>

text \<open>
  \<^verbatim>\<open>_detect_search_query\<close>. The test looks at the lowered, stripped message; the slice is
  taken from the message as it was given.
\<close>

definition detect_search_query :: "string \<Rightarrow> string option" where
  "detect_search_query user_message =
     (let user_message_lower = strip (lower user_message) in
      if prefix ''search:'' user_message_lower \<or> prefix ''/search'' user_message_lower then
        (let query =
               (if prefix ''search:'' user_message_lower
                then strip (drop (length ''search:'') user_message)
                else strip (drop (length ''/search'') user_message))
         in if query \<noteq> [] then Some query else None)
      else None)"

record search_result =
  res_title :: string
  res_href :: string
  res_body :: string

record message =
  role :: string
  content :: string

text \<open>
  The collaborators of one turn. \<open>web_search q n\<close> is what \<^verbatim>\<open>perform_web_search\<close>
  returns (it catches its own failures); \<open>generate_content p\<close> is \<open>Inr\<close> of
  \<^verbatim>\<open>response.text\<close>, or \<open>Inl\<close> of the text of the exception that
  \<^verbatim>\<open>generate_content\<close> or \<^verbatim>\<open>response.text\<close> raised; \<open>conversation_of\<close> and
  \<open>history_of\<close> are the answers of \<^verbatim>\<open>get_or_create_conversation\<close> and
  \<^verbatim>\<open>get_conversation_history\<close> (both catch their own failures). \<open>searched\<close> and
  \<open>saved\<close> log the calls of \<^verbatim>\<open>perform_web_search\<close> and \<^verbatim>\<open>save_message\<close>, oldest
  first.
\<close>

record world =
  web_search :: "string \<Rightarrow> nat \<Rightarrow> search_result list"
  generate_content :: "string \<Rightarrow> string + string"
  conversation_of :: "string \<Rightarrow> string option"
  history_of :: "string \<Rightarrow> message list"
  searched :: "(string \<times> nat) list"
  saved :: "(string \<times> string \<times> string) list"

text \<open>The fields of a \<^verbatim>\<open>GeminiClient\<close>; \<open>db\<close> is whether \<^verbatim>\<open>self.db\<close> is set.\<close>

record client =
  system_prompt :: string
  conversation_history :: "message list"
  use_database :: bool
  db :: bool
  current_conversation_id :: "string option"

definition perform_web_search :: "world \<Rightarrow> string \<Rightarrow> nat \<Rightarrow> search_result list \<times> world" where
  "perform_web_search w query max_results =
     (web_search w query max_results, w\<lparr>searched := searched w @ [(query, max_results)]\<rparr>)"

definition save_message :: "world \<Rightarrow> string \<Rightarrow> string \<Rightarrow> string \<Rightarrow> world" where
  "save_message w conversation_id r c = w\<lparr>saved := saved w @ [(conversation_id, r, c)]\<rparr>"

definition set_conversation_id :: "client \<Rightarrow> world \<Rightarrow> string \<Rightarrow> client" where
  "set_conversation_id c w conversation_id =
     (let c1 = c\<lparr>current_conversation_id := Some conversation_id\<rparr> in
      if use_database c1 \<and> db c1
      then c1\<lparr>conversation_history := history_of w conversation_id\<rparr>
      else c1)"

text \<open>The first block of \<^verbatim>\<open>chat\<close>: find the conversation, load or reload the history.\<close>

definition init_conversation :: "client \<Rightarrow> world \<Rightarrow> string option \<Rightarrow> client" where
  "init_conversation c w session_id =
     (if use_database c \<and> db c \<and> truthy session_id then
        if \<not> truthy (current_conversation_id c) then
          (let conversation_id = conversation_of w (the session_id) in
           if truthy conversation_id then set_conversation_id c w (the conversation_id) else c)
        else if conversation_history c = [] then
          c\<lparr>conversation_history := history_of w (the (current_conversation_id c))\<rparr>
        else c
      else c)"

text \<open>The loop over \<^verbatim>\<open>enumerate(search_results, 1)\<close>.\<close>

fun format_results :: "nat \<Rightarrow> search_result list \<Rightarrow> string" where
  "format_results idx [] = []"
| "format_results idx (r # rs) =
     ''\<newline>['' @ str_nat idx @ ''] '' @ res_title r @ ''\<newline>''
     @ ''URL: '' @ res_href r @ ''\<newline>''
     @ ''Summary: '' @ res_body r @ ''\<newline>''
     @ format_results (Suc idx) rs"

definition no_results_note :: string where
  "no_results_note =
     ''\<newline>\<newline>(Note: Web search did not return results. Please respond based on your knowledge.)''"

definition search_step :: "world \<Rightarrow> string \<Rightarrow> string \<times> world" where
  "search_step w user_message =
     (case detect_search_query user_message of
        Some search_query \<Rightarrow>
          (let (search_results, w1) = perform_web_search w search_query 6 in
           if search_results \<noteq> [] then
             (let search_context =
                    ''\<newline>\<newline>--- Web Search Results ---\<newline>'' @ format_results 1 search_results
              in (user_message @ ''\<newline>\<newline>'' @ search_context
                  @ ''\<newline>\<newline>Please provide a helpful response based on these search results, citing sources with [1], [2], etc.'',
                  w1))
           else (user_message @ no_results_note, w1))
      | None \<Rightarrow> (user_message, w))"

text \<open>
  The settings block. \<^verbatim>\<open>user_settings\<close> is an optional dictionary, here an association
  list; a setting counts when its value is a non-empty string.
\<close>

definition setting :: "(string \<times> string) list \<Rightarrow> string \<Rightarrow> string \<Rightarrow> string list" where
  "setting d key label =
     (if truthy (map_of d key) then [label @ the (map_of d key)] else [])"

definition settings_step :: "(string \<times> string) list option \<Rightarrow> string \<Rightarrow> string" where
  "settings_step user_settings enhanced_message =
     (case user_settings of
        None \<Rightarrow> enhanced_message
      | Some d \<Rightarrow>
          if d = [] then enhanced_message
          else (let settings_parts =
                      setting d ''duration'' ''Study Duration: ''
                      @ setting d ''current_level'' ''Current Level: ''
                      @ setting d ''study_field'' ''Study Field: ''
                in if settings_parts \<noteq> []
                   then (''\<newline>\<newline>User Settings:\<newline>'' @ join ''\<newline>'' settings_parts @ ''\<newline>'')
                        @ enhanced_message
                   else enhanced_message))"

text \<open>The transcript: system prompt, one paragraph for each entry, the cue for the reply.\<close>

fun transcript :: "message list \<Rightarrow> string" where
  "transcript [] = []"
| "transcript (m # ms) =
     (if role m = ''user'' then ''User: '' @ content m @ ''\<newline>\<newline>''
      else ''Assistant: '' @ content m @ ''\<newline>\<newline>'')
     @ transcript ms"

definition conversation_text :: "client \<Rightarrow> string" where
  "conversation_text c =
     system_prompt c @ ''\<newline>\<newline>'' @ transcript (conversation_history c) @ ''Assistant:''"

text \<open>
  \<^verbatim>\<open>chat\<close> up to the \<^verbatim>\<open>try\<close>: the client and the world when the model is called, with
  the enhanced message.
\<close>

definition chat_prepare ::
  "client \<Rightarrow> world \<Rightarrow> string \<Rightarrow> string option \<Rightarrow> (string \<times> string) list option
   \<Rightarrow> string \<times> client \<times> world" where
  "chat_prepare c w user_message session_id user_settings =
     (let c1 = init_conversation c w session_id;
          (enhanced0, w1) = search_step w user_message;
          enhanced_message = settings_step user_settings enhanced0;
          c2 = c1\<lparr>conversation_history :=
                    conversation_history c1 @ [\<lparr>role = ''user'', content = enhanced_message\<rparr>]\<rparr>;
          w2 = (if use_database c2 \<and> db c2 \<and> truthy (current_conversation_id c2)
                then save_message w1 (the (current_conversation_id c2)) ''user'' enhanced_message
                else w1)
      in (enhanced_message, c2, w2))"

text \<open>
  \<^verbatim>\<open>chat\<close>: the reply, the client and the world after the turn. The \<^verbatim>\<open>except\<close> clause
  is the branch \<open>Inl\<close>.
\<close>

definition chat ::
  "client \<Rightarrow> world \<Rightarrow> string \<Rightarrow> string option \<Rightarrow> (string \<times> string) list option
   \<Rightarrow> string \<times> client \<times> world" where
  "chat c w user_message session_id user_settings =
     (let (enhanced_message, c2, w2) = chat_prepare c w user_message session_id user_settings in
      case generate_content w2 (conversation_text c2) of
        Inr text \<Rightarrow>
          (let ai_response = strip text;
               c3 = c2\<lparr>conversation_history :=
                         conversation_history c2 @ [\<lparr>role = ''assistant'', content = ai_response\<rparr>]\<rparr>;
               w3 = (if use_database c3 \<and> db c3 \<and> truthy (current_conversation_id c3)
                     then save_message w2 (the (current_conversation_id c3)) ''assistant'' ai_response
                     else w2)
           in (ai_response, c3, w3))
      | Inl e \<Rightarrow> (''Error generating response: '' @ e, c2, w2))"

text \<open>A client without persistence and collaborators that answer nothing, for examples.\<close>

definition client0 :: client where
  "client0 = \<lparr> system_prompt = ''You are an AI Study Planner Agent.'',
               conversation_history = [], use_database = False, db = False,
               current_conversation_id = None \<rparr>"

definition world0 :: world where
  "world0 = \<lparr> web_search = (\<lambda>q n. []),
              generate_content = (\<lambda>p. Inl ''quota exceeded''),
              conversation_of = (\<lambda>s. Some ''c1''),
              history_of = (\<lambda>i. [\<lparr>role = ''user'', content = ''hello''\<rparr>,
                                  \<lparr>role = ''assistant'', content = ''hi''\<rparr>]),
              searched = [], saved = [] \<rparr>"

definition client_db :: client where
  "client_db = client0\<lparr>use_database := True, db := True\<rparr>"

section \<open>Lemmas on strings and on the turn\<close>

lemma rstrip_keeps_prefix:
  assumes "prefix p s" "p \<noteq> []" "\<not> isspace (last p)"
  shows "prefix p (rstrip s)"
proof -
  from assms(1) obtain t where s: "s = p @ t" by (auto simp: prefix_def)
  have "rev s = rev t @ rev p" by (simp add: s)
  obtain q where q: "p = q @ [last p]" using assms(2) by (metis append_butlast_last_id)
  have "dropWhile isspace (rev t @ rev p) = dropWhile isspace (rev t) @ rev p \<or> dropWhile isspace (rev t @ rev p) = rev p"
  proof (cases "\<forall>x\<in>set (rev t). isspace x")
    case True
    then have "dropWhile isspace (rev t @ rev p) = dropWhile isspace (rev p)"
      by (induction "rev t") (metis dropWhile_append2)+
    also have "\<dots> = rev p" using assms(3) q by (metis dropWhile.simps(2) rev.simps(2) rev_append append_Nil rev.simps(1) append_Cons)
    finally show ?thesis by simp
  next
    case False
    then show ?thesis by (metis dropWhile_append1)
  qed
  then show ?thesis
    by (auto simp: rstrip_def s prefix_def)
qed

lemma strip_keeps_prefix:
  assumes "prefix p s" "p \<noteq> []" "\<not> isspace (hd p)" "\<not> isspace (last p)"
  shows "prefix p (strip s)"
proof -
  from assms obtain a q t where "s = a # q" "a = hd p" by (cases p; auto simp: prefix_def)
  then have "lstrip s = s" using assms(3) by (simp add: lstrip_def)
  then show ?thesis using rstrip_keeps_prefix[OF assms(1,2,4)] by (simp add: strip_def)
qed

lemma detect_search_query_prefix:
  assumes "prefix ''search:'' (lower m) \<or> prefix ''/search'' (lower m)"
  shows "detect_search_query m =
           (if strip (drop 7 m) \<noteq> [] then Some (strip (drop 7 m)) else None)"
proof -
  have "prefix ''search:'' (strip (lower m)) \<or> prefix ''/search'' (strip (lower m))"
    using assms
  proof
    assume "prefix ''search:'' (lower m)"
    then have "prefix ''search:'' (strip (lower m))"
      by (rule strip_keeps_prefix) (simp_all add: isspace_def)
    then show ?thesis ..
  next
    assume "prefix ''/search'' (lower m)"
    then have "prefix ''/search'' (strip (lower m))"
      by (rule strip_keeps_prefix) (simp_all add: isspace_def)
    then show ?thesis ..
  qed
  then show ?thesis
    by (auto simp: detect_search_query_def Let_def eval_nat_numeral)
qed

lemma transcript_append: "transcript (xs @ ys) = transcript xs @ transcript ys"
  by (induction xs) auto

lemma settings_step_suffix: "\<exists>pre. settings_step us e = pre @ e"
  by (auto simp: settings_step_def Let_def split: option.splits)

lemma chat_prepare_generate:
  "generate_content (snd (snd (chat_prepare c w m sid us))) = generate_content w"
  by (auto simp: chat_prepare_def Let_def search_step_def perform_web_search_def save_message_def
      split: option.splits prod.splits)

lemma chat_prepare_history:
  "conversation_history (fst (snd (chat_prepare c w m sid us))) =
     conversation_history (init_conversation c w sid)
     @ [\<lparr>role = ''user'', content = fst (chat_prepare c w m sid us)\<rparr>]"
  by (auto simp: chat_prepare_def Let_def split: option.splits prod.splits)

lemma chat_prepare_searched:
  "searched (snd (snd (chat_prepare c w m sid us))) = searched (snd (search_step w m))"
  by (auto simp: chat_prepare_def Let_def save_message_def split: option.splits prod.splits)

lemma chat_searched:
  "searched (snd (snd (chat c w m sid us))) = searched (snd (search_step w m))"
  using chat_prepare_searched [of c w m sid us]
  by (auto simp: chat_def Let_def save_message_def split: option.splits prod.splits sum.splits)

lemma chat_prepare_enhanced:
  "fst (chat_prepare c w m sid us) = settings_step us (fst (search_step w m))"
  by (auto simp: chat_prepare_def Let_def split: option.splits prod.splits)

lemma chat_prepare_saved:
  "saved (snd (snd (chat_prepare c w m sid us))) =
     saved w @
     (if use_database (init_conversation c w sid) \<and> db (init_conversation c w sid)
         \<and> truthy (current_conversation_id (init_conversation c w sid))
      then [(the (current_conversation_id (init_conversation c w sid)), ''user'',
             fst (chat_prepare c w m sid us))]
      else [])"
  by (auto simp: chat_prepare_def Let_def search_step_def perform_web_search_def save_message_def
      split: option.splits prod.splits)

lemma init_conversation_same_history:
  assumes "\<not> (use_database c \<and> db c \<and> truthy sid)
           \<or> (truthy (current_conversation_id c) \<and> conversation_history c \<noteq> [])"
  shows "conversation_history (init_conversation c w sid) = conversation_history c"
  using assms by (auto simp: init_conversation_def)

section \<open>Lemmas on lines, searches and the sanitation steps\<close>

lemma contains_sublist: "contains w s \<longleftrightarrow> sublist w s"
  unfolding contains_def
  by (induction s) (auto simp: sublist_Cons_right)


lemma find_str_le: "find_str w s = Some i \<Longrightarrow> i \<le> length s"
  by (induction s arbitrary: i) (auto split: if_splits)

lemma lower_append: "lower (a @ b) = lower a @ lower b"
  by (simp add: lower_def)

lemma lower_drop: "lower (drop n s) = drop n (lower s)"
  by (simp add: lower_def drop_map)

lemma of_char_lower_char:
  "(of_char (lower_char c) :: nat) =
     (if (65 \<le> (of_char c :: nat) \<and> (of_char c :: nat) \<le> 90)
         \<or> (192 \<le> (of_char c :: nat) \<and> (of_char c :: nat) \<le> 214)
         \<or> (216 \<le> (of_char c :: nat) \<and> (of_char c :: nat) \<le> 222)
      then of_char c + 32 else of_char c)"
proof -
  have m: "(n + 32) mod 256 = n + 32" if "n \<le> 222" for n :: nat
    using that by simp
  show ?thesis
    unfolding lower_char_def Let_def
    by (auto simp only: of_char_of m split: if_splits)
qed

lemma lower_char_nl: "lower_char c = CHR ''\<newline>'' \<longleftrightarrow> c = CHR ''\<newline>''"
proof -
  have "lower_char c = CHR ''\<newline>'' \<longleftrightarrow> (of_char (lower_char c) :: nat) = of_char CHR ''\<newline>''"
    by (simp only: of_char_eq_iff)
  also have "\<dots> \<longleftrightarrow> (of_char c :: nat) = of_char CHR ''\<newline>''"
    unfolding of_char_lower_char by (simp split: if_splits)
  also have "\<dots> \<longleftrightarrow> c = CHR ''\<newline>''"
    by (simp only: of_char_eq_iff)
  finally show ?thesis .
qed

lemma split_nl_unfold:
  "split_nl s = takeWhile (\<lambda>c. c \<noteq> CHR ''\<newline>'') s
     # (case dropWhile (\<lambda>c. c \<noteq> CHR ''\<newline>'') s of [] \<Rightarrow> [] | c # r \<Rightarrow> split_nl r)"
  by (induction s) (auto split: list.splits)

lemma split_nl_nonempty: "split_nl s \<noteq> []"
  by (subst split_nl_unfold) simp


lemma split_nl_append:
  "split_nl (a @ CHR ''\<newline>'' # b) = split_nl a @ split_nl b"
proof (induction a)
  case Nil
  show ?case by simp
next
  case (Cons c a)
  obtain l ls where l: "split_nl a = l # ls"
    using split_nl_nonempty [of a] by (cases "split_nl a") auto
  with Cons show ?case by auto
qed


lemma split_nl_no_nl: "CHR ''\<newline>'' \<notin> set l \<Longrightarrow> split_nl l = [l]"
  by (induction l) auto

lemma split_nl_lines_no_nl: "l \<in> set (split_nl s) \<Longrightarrow> CHR ''\<newline>'' \<notin> set l"
proof (induction s arbitrary: l)
  case Nil
  then show ?case by simp
next
  case (Cons c s)
  obtain k ks where k: "split_nl s = k # ks"
    using split_nl_nonempty [of s] by (cases "split_nl s") auto
  with Cons show ?case by (auto split: if_splits)
qed

lemma split_nl_join:
  assumes "ls \<noteq> []" "\<forall>l\<in>set ls. CHR ''\<newline>'' \<notin> set l"
  shows "split_nl (join ''\<newline>'' ls) = ls"
  using assms
proof (induction ls rule: induct_list012)
  case 1
  then show ?case by simp
next
  case (2 x)
  then show ?case by (simp add: split_nl_no_nl)
next
  case (3 x y ys)
  then have "split_nl (x @ CHR ''\<newline>'' # join ''\<newline>'' (y # ys)) = [x] @ (y # ys)"
    by (simp only: split_nl_append) (simp add: split_nl_no_nl)
  then show ?case by simp
qed

lemma split_nl_color_defs_no_nl: "\<forall>l\<in>set (split_nl color_defs). CHR ''\<newline>'' \<notin> set l"
  using split_nl_lines_no_nl by blast

lemma lines_after_insert:
  "split_nl (join ''\<newline>'' (insert_at1 d (split_nl h))) =
     take 1 (split_nl h) @ split_nl d @ drop 1 (split_nl h)"
proof -
  obtain l ls where l: "split_nl h = l # ls"
    using split_nl_nonempty [of h] by (cases "split_nl h") auto
  have nl: "CHR ''\<newline>'' \<notin> set l" "\<forall>k\<in>set ls. CHR ''\<newline>'' \<notin> set k"
    using split_nl_lines_no_nl [of _ h] l by auto
  have "join ''\<newline>'' (l # d # ls) = l @ CHR ''\<newline>'' # join ''\<newline>'' (d # ls)"
    by simp
  moreover have "split_nl (join ''\<newline>'' (d # ls)) = split_nl d @ ls"
  proof (cases ls)
    case Nil
    then show ?thesis by simp
  next
    case (Cons k ks)
    then have "join ''\<newline>'' (d # ls) = d @ CHR ''\<newline>'' # join ''\<newline>'' ls" by simp
    moreover have "split_nl (join ''\<newline>'' ls) = ls"
      using nl(2) Cons by (intro split_nl_join) auto
    ultimately show ?thesis by (simp only: split_nl_append)
  qed
  ultimately have "split_nl (join ''\<newline>'' (l # d # ls)) = [l] @ split_nl d @ ls"
    using nl(1) by (simp only: split_nl_append) (simp add: split_nl_no_nl)
  then show ?thesis by (simp add: insert_at1_def l)
qed

lemma strategies_empty_text: "strategy1 [] = []" "strategy2 [] = []" "strategy3 [] = []"
  by code_simp+






lemma split_nl_sublist:
  "prefix (hd (split_nl s)) s \<and> (\<forall>l\<in>set (split_nl s). sublist l s)"
proof (induction s)
  case Nil
  show ?case by simp
next
  case (Cons c s)
  obtain k ks where k: "split_nl s = k # ks"
    using split_nl_nonempty [of s] by (cases "split_nl s") auto
  show ?case
  proof (cases "c = CHR ''\<newline>''")
    case True
    with Cons show ?thesis by (auto simp: sublist_Cons_right)
  next
    case False
    with Cons k show ?thesis by (auto simp: sublist_Cons_right)
  qed
qed

lemma line_contains:
  assumes "l \<in> set (split_nl s)" "contains w (lower l)"
  shows "contains w (lower s)"
proof -
  from assms(1) have "sublist l s" using split_nl_sublist by blast
  then have "sublist (lower l) (lower s)" unfolding lower_def by (rule map_mono_sublist)
  with assms(2) show ?thesis
    unfolding contains_sublist by (meson sublist_order.order_trans)
qed

lemma ensure_header_cases:
  "ensure_header (lower c) c = c
   \<or> (\<exists>i. ensure_header (lower c) c = drop i c)
   \<or> ensure_header (lower c) c = ''flowchart TD'' @ CHR ''\<newline>'' # c"
  by (auto simp: ensure_header_def split: option.splits)

lemma header_lines_no_classdef:
  assumes "\<not> contains ''classdef'' (lower c)"
      and "l \<in> set (split_nl (ensure_header (lower c) c))"
  shows "\<not> contains ''classdef'' (lower l)"
proof -
  have k: "\<not> contains ''classdef'' (lower ''flowchart TD'')" by code_simp
  consider "ensure_header (lower c) c = c"
    | i where "ensure_header (lower c) c = drop i c"
    | "ensure_header (lower c) c = ''flowchart TD'' @ CHR ''\<newline>'' # c"
    using ensure_header_cases by blast
  then show ?thesis
  proof cases
    case 1
    with assms line_contains show ?thesis by metis
  next
    case 2
    show ?thesis
    proof
      assume "contains ''classdef'' (lower l)"
      with assms(2) 2 have "contains ''classdef'' (lower (drop i c))"
        using line_contains by metis
      then have "sublist ''classdef'' (drop i (lower c))"
        unfolding contains_sublist lower_drop .
      then have "sublist ''classdef'' (lower c)"
        by (meson sublist_drop sublist_order.order_trans)
      with assms(1) show False unfolding contains_sublist by blast
    qed
  next
    case 3
    with assms(2) have "l = ''flowchart TD'' \<or> l \<in> set (split_nl c)"
      by (simp only: split_nl_append) (simp add: split_nl_no_nl)
    then show ?thesis
    proof
      assume "l = ''flowchart TD''"
      with k show ?thesis by blast
    next
      assume "l \<in> set (split_nl c)"
      with assms(1) show ?thesis using line_contains by blast
    qed
  qed
qed

lemma color_defs_lines:
  "split_nl color_defs =
     [''classDef foundation fill:#4d94ff,color:#000,stroke:#333,stroke-width:2px'',
      ''classDef core fill:#33cc33,color:#000,stroke:#333,stroke-width:2px'',
      ''classDef practice fill:#ff9900,color:#000,stroke:#333,stroke-width:2px'',
      ''classDef project fill:#9933ff,color:#fff,stroke:#333,stroke-width:2px'',
      ''classDef review fill:#ff3333,color:#fff,stroke:#333,stroke-width:2px'']"
  by code_simp

lemma color_defs_count:
  "filter (\<lambda>l. contains ''classdef'' (lower l)) (split_nl color_defs) = split_nl color_defs"
  "length (split_nl color_defs) = 5"
  by code_simp+

section \<open>Lemmas on the matcher\<close>

lemma drop_Cons_nth: "i < length s \<Longrightarrow> drop i s = s ! i # drop (Suc i) s"
  by (simp add: Cons_nth_drop_Suc)

lemma lit_Cons: "lit (x # w) = Seq (Cls (\<lambda>c. c = x)) (lit w)"
  by (simp add: lit_def)

lemma lit_i_Cons: "lit_i (x # w) = Seq (Cls (\<lambda>c. lower_char c = lower_char x)) (lit_i w)"
  by (simp add: lit_i_def)

lemma run_lit:
  "run (lit w) s (i, g) = (if prefix w (drop i s) then [(i + length w, g)] else [])"
proof (induction w arbitrary: i)
  case Nil
  show ?case by (simp add: lit_def)
next
  case (Cons x w)
  show ?case
  proof (cases "i < length s")
    case False
    then show ?thesis by (simp add: lit_Cons)
  next
    case True
    have d: "drop i s = s ! i # drop (Suc i) s" using True by (rule drop_Cons_nth)
    show ?thesis
    proof (cases "s ! i = x")
      case False
      then show ?thesis using True by (simp add: lit_Cons d)
    next
      case e: True
      then have "run (lit (x # w)) s (i, g) = run (lit w) s (Suc i, g)"
        using True by (simp add: lit_Cons)
      also have "\<dots> = (if prefix w (drop (Suc i) s) then [(Suc i + length w, g)] else [])"
        by (rule Cons.IH)
      finally show ?thesis using e by (simp add: d)
    qed
  qed
qed

lemma run_lit_i:
  "run (lit_i w) s (i, g) =
     (if prefix (lower w) (lower (drop i s)) then [(i + length w, g)] else [])"
proof (induction w arbitrary: i)
  case Nil
  show ?case by (simp add: lit_i_def lower_def)
next
  case (Cons x w)
  show ?case
  proof (cases "i < length s")
    case False
    then show ?thesis by (simp add: lit_i_Cons lower_def)
  next
    case True
    have d: "drop i s = s ! i # drop (Suc i) s" using True by (rule drop_Cons_nth)
    show ?thesis
    proof (cases "lower_char (s ! i) = lower_char x")
      case False
      then show ?thesis using True by (auto simp: lit_i_Cons d lower_def)
    next
      case e: True
      then have "run (lit_i (x # w)) s (i, g) = run (lit_i w) s (Suc i, g)"
        using True by (simp add: lit_i_Cons)
      also have "\<dots> = (if prefix (lower w) (lower (drop (Suc i) s))
                        then [(Suc i + length w, g)] else [])"
        by (rule Cons.IH)
      finally show ?thesis using e by (simp add: d lower_def)
    qed
  qed
qed

lemma concat_map_first:
  assumes "\<forall>x\<in>set xs. f x = []"
  shows "concat (map f (y # xs)) = f y"
  using assms by (induction xs) auto

lemma takeWhile_nth: "k < length (takeWhile P xs) \<Longrightarrow> P (xs ! k) \<and> k < length xs"
  by (metis length_takeWhile_le less_le_trans nth_mem set_takeWhileD takeWhile_nth)

lemma run_StarG_then:
  assumes "\<And>j g'. j < length s \<Longrightarrow> P (s ! j) \<Longrightarrow> f (j, g') = []"
  shows "concat (map f (run (StarG P) s (i, g))) = f (i + length (takeWhile P (drop i s)), g)"
proof -
  let ?K = "length (takeWhile P (drop i s))"
  have "f (i + k, g) = []" if "k < ?K" for k
  proof -
    from takeWhile_nth [OF that] have "P (drop i s ! k)" "k < length (drop i s)" by auto
    then have "i + k < length s" "P (s ! (i + k))" by auto
    then show ?thesis by (rule assms)
  qed
  then have "\<forall>x\<in>set (map (\<lambda>k. (i + k, g)) (rev [0..<?K])). f x = []" by auto
  then have "concat (map f ((i + ?K, g) # map (\<lambda>k. (i + k, g)) (rev [0..<?K]))) = f (i + ?K, g)"
    by (rule concat_map_first)
  then show ?thesis by simp
qed

lemma run_Grp_plus_then:
  assumes "\<And>j g'. j < length s \<Longrightarrow> P (s ! j) \<Longrightarrow> f (j, g') = []"
  shows "concat (map f (run (Grp (Seq (Cls C) (StarG P))) s (i, g))) =
           (if i < length s \<and> C (s ! i)
            then f (Suc i + length (takeWhile P (drop (Suc i) s)),
                    g @ [(i, Suc i + length (takeWhile P (drop (Suc i) s)))])
            else [])"
proof (cases "i < length s \<and> C (s ! i)")
  case False
  then show ?thesis by auto
next
  case True
  let ?K = "length (takeWhile P (drop (Suc i) s))"
  let ?h = "\<lambda>k. (Suc i + k, g @ [(i, Suc i + k)])"
  have r: "run (Grp (Seq (Cls C) (StarG P))) s (i, g) = map ?h (rev [0..<Suc ?K])"
    using True by (simp add: comp_def)
  have "f (?h k) = []" if "k < ?K" for k
  proof -
    from takeWhile_nth [OF that] have "P (drop (Suc i) s ! k)" "k < length (drop (Suc i) s)" by auto
    then have "Suc i + k < length s" "P (s ! (Suc i + k))" by auto
    then show ?thesis using assms by blast
  qed
  then have "\<forall>x\<in>set (map ?h (rev [0..<?K])). f x = []" by auto
  then have "concat (map f (?h ?K # map ?h (rev [0..<?K]))) = f (?h ?K)"
    by (rule concat_map_first)
  then show ?thesis using True unfolding r by simp
qed


lemma run_Seq_lit:
  "run (Seq (lit w) r) s (i, g) = (if prefix w (drop i s) then run r s (i + length w, g) else [])"
  by (simp add: run_lit)

lemma run_Seq_lit_i:
  "run (Seq (lit_i w) r) s (i, g) =
     (if prefix (lower w) (lower (drop i s)) then run r s (i + length w, g) else [])"
  by (simp add: run_lit_i)

lemma run_Seq_StarG_then:
  assumes "\<And>j g'. j < length s \<Longrightarrow> P (s ! j) \<Longrightarrow> run r s (j, g') = []"
  shows "run (Seq (StarG P) r) s (i, g) = run r s (i + length (takeWhile P (drop i s)), g)"
  using run_StarG_then [where f="run r s" and P=P and s=s and i=i and g=g] assms
  by (simp only: run.simps)

lemma run_Seq_Grp_plus_then:
  assumes "\<And>j g'. j < length s \<Longrightarrow> P (s ! j) \<Longrightarrow> run r s (j, g') = []"
  shows "run (Seq (Grp (Seq (Cls C) (StarG P))) r) s (i, g) =
           (if i < length s \<and> C (s ! i)
            then run r s (Suc i + length (takeWhile P (drop (Suc i) s)),
                          g @ [(i, Suc i + length (takeWhile P (drop (Suc i) s)))])
            else [])"
  using run_Grp_plus_then [where f="run r s" and P=P and s=s and i=i and g=g and C=C] assms
  by (simp only: run.simps)

declare run.simps [simp del]

lemma match_at_False:
  "match_at r s False i = (case run r s (i, []) of [] \<Rightarrow> None | m # ms \<Rightarrow> Some m)"
  by (simp add: match_at_def)

lemma search_skip:
  "i \<le> length s \<Longrightarrow> match_at r s a i = None \<Longrightarrow> search r s a i = search r s False (Suc i)"
  by (subst search.simps) simp

lemma search_hit:
  "i \<le> length s \<Longrightarrow> match_at r s a i = Some (j, g) \<Longrightarrow> search r s a i = Some (i, j, g)"
  by (subst search.simps) simp

lemma search_beyond: "length s < i \<Longrightarrow> search r s a i = None"
  by (subst search.simps) simp

lemma matches_from_skip:
  "i \<le> length s \<Longrightarrow> match_at r s a i = None
   \<Longrightarrow> matches_from r s a i = matches_from r s False (Suc i)"
  by (subst matches_from.simps, subst (2) matches_from.simps) (simp add: search_skip)

lemma matches_from_hit:
  "i \<le> length s \<Longrightarrow> match_at r s a i = Some (j, g)
   \<Longrightarrow> matches_from r s a i = (i, j, g) # matches_from r s (j = i) j"
  by (subst matches_from.simps) (simp add: search_hit)

lemma matches_from_beyond: "length s < i \<Longrightarrow> matches_from r s a i = []"
  by (subst matches_from.simps) (simp add: search_beyond)

section \<open>Lemmas on the node pattern\<close>

lemma dropWhile_drop_takeWhile: "drop (length (takeWhile P xs)) xs = dropWhile P xs"
  by (metis dropWhile_eq_drop)

lemma run_node_pattern:
  assumes "i \<le> length s"
  shows "run node_pattern s (i, []) =
     (case spec_node_token (drop i s) of
        None \<Rightarrow> []
      | Some ((nid, label), rest) \<Rightarrow>
          [(length s - length rest,
            [(i, i + length nid),
             (Suc (i + length nid), Suc (i + length nid) + length label)])])"
proof -
  let ?R3 = "Seq (lit '']'') Eps"
  let ?G2 = "Grp (Seq (Cls notrb) (StarG notrb))"
  let ?R2 = "Seq ?G2 ?R3"
  let ?R1 = "Seq (lit ''['') ?R2"
  let ?G1 = "Grp (Seq (Cls isupper_az) (StarG isword))"
  have np: "node_pattern = Seq ?G1 ?R1"
    by (simp add: node_pattern_def)
  have r3: "run ?R3 s (j, g) = (if prefix '']'' (drop j s) then [(Suc j, g)] else [])" for j g
    by (simp add: run_Seq_lit run.simps(2))
  have r3_no: "run ?R3 s (j, g) = []" if "j < length s" "notrb (s ! j)" for j g
    using that by (simp add: r3 drop_Cons_nth notrb_def)
  have r2: "run ?R2 s (q, g) =
      (if q < length s \<and> notrb (s ! q)
       then run ?R3 s (Suc q + length (takeWhile notrb (drop (Suc q) s)),
                       g @ [(q, Suc q + length (takeWhile notrb (drop (Suc q) s)))])
       else [])" for q g
    by (rule run_Seq_Grp_plus_then) (rule r3_no)
  have r1: "run ?R1 s (p, g) = (if prefix ''['' (drop p s) then run ?R2 s (Suc p, g) else [])" for p g
    by (simp add: run_Seq_lit)
  have r1_no: "run ?R1 s (j, g) = []" if "j < length s" "isword (s ! j)" for j g
  proof -
    have "\<not> isword CHR ''[''" by (simp add: isword_def)
    with that show ?thesis by (auto simp: r1 drop_Cons_nth)
  qed
  have r0: "run node_pattern s (i, []) =
      (if i < length s \<and> isupper_az (s ! i)
       then run ?R1 s (Suc i + length (takeWhile isword (drop (Suc i) s)),
                       [] @ [(i, Suc i + length (takeWhile isword (drop (Suc i) s)))])
       else [])"
    unfolding np by (rule run_Seq_Grp_plus_then) (rule r1_no)
  show ?thesis
  proof (cases "i < length s")
    case False
    with assms have "drop i s = []" by simp
    with False show ?thesis by (simp add: r0)
  next
    case True
    define c u where "c = s ! i" and "u = drop (Suc i) s"
    have d: "drop i s = c # u" using True by (simp add: c_def u_def drop_Cons_nth)
    show ?thesis
    proof (cases "isupper_az c")
      case False
      then show ?thesis using True by (simp add: r0 d c_def [symmetric])
    next
      case up: True
      define K where "K = length (takeWhile isword u)"
      define p where "p = Suc i + K"
      have dp: "drop p s = dropWhile isword u"
        unfolding p_def K_def u_def
        by (metis add.commute drop_drop dropWhile_drop_takeWhile)
      have s0: "run node_pattern s (i, []) = run ?R1 s (p, [(i, p)])"
        using True up by (simp add: r0 c_def p_def K_def u_def)
      have idl: "i + length (c # takeWhile isword u) = p"
        by (simp add: p_def K_def)
      show ?thesis
      proof (cases "dropWhile isword u")
        case Nil
        have "spec_node_token (drop i s) = None"
          unfolding d by (simp only: spec_node_token.simps up Nil list.case if_True)
        moreover have "run node_pattern s (i, []) = []"
          unfolding s0 r1 dp Nil by simp
        ultimately show ?thesis by simp
      next
        case (Cons b r)
        show ?thesis
        proof (cases "b = CHR ''[''")
          case False
          have "spec_node_token (drop i s) = None"
            unfolding d using False
            by (simp only: spec_node_token.simps up Cons list.case if_True simp_thms if_False)
          moreover have "run node_pattern s (i, []) = []"
            unfolding s0 r1 dp Cons using False by simp
          ultimately show ?thesis by simp
        next
          case b: True
          have dq: "drop (Suc p) s = r"
            using dp Cons by (metis drop_Suc tl_drop list.sel(3))
          have s1: "run node_pattern s (i, []) = run ?R2 s (Suc p, [(i, p)])"
            using Cons b by (simp add: s0 r1 dp)
          have nr: "notrb = (\<lambda>x. x \<noteq> CHR '']'')"
            by (simp add: notrb_def fun_eq_iff)
          show ?thesis
          proof (cases "takeWhile notrb r = []")
            case True
            then have "\<not> (Suc p < length s \<and> notrb (s ! Suc p))"
              using dq by (cases r) (auto simp: drop_Cons_nth split: if_splits)
            then have "run node_pattern s (i, []) = []"
              unfolding s1 r2 by (simp only: if_False)
            moreover have "spec_node_token (drop i s) = None"
              unfolding d using True
              by (simp only: spec_node_token.simps up Cons list.case if_True nr [symmetric]
                    simp_thms if_False)
            ultimately show ?thesis by simp
          next
            case False
            then obtain a r' where r: "r = a # r'" and a: "notrb a"
              by (cases r) (auto split: if_splits)
            have q: "Suc p < length s" "s ! Suc p = a" "drop (Suc (Suc p)) s = r'"
              using dq r
              by (metis drop_eq_Nil not_le list.discI,
                  metis drop_eq_Nil not_le list.discI drop_Cons_nth list.inject,
                  metis drop_Suc tl_drop list.sel(3))
            define M where "M = length (takeWhile notrb r')"
            define e where "e = Suc (Suc p) + M"
            have tl: "takeWhile notrb r = a # takeWhile notrb r'"
              using a r by simp
            have de: "drop e s = dropWhile notrb r"
            proof -
              have "drop e s = drop M r'"
                unfolding e_def q(3) [symmetric] by (simp add: add.commute)
              also have "\<dots> = dropWhile notrb r'"
                unfolding M_def by (rule dropWhile_drop_takeWhile)
              finally show ?thesis using a r by simp
            qed
            have s2: "run node_pattern s (i, []) = run ?R3 s (e, [(i, p), (Suc p, e)])"
              unfolding s1 r2 using q a by (simp add: e_def M_def)
            have ll: "Suc p + length (takeWhile notrb r) = e"
              by (simp add: tl e_def M_def)
            show ?thesis
            proof (cases "dropWhile notrb r")
              case Nil
              have "spec_node_token (drop i s) = None"
                unfolding d using Nil
                by (simp only: spec_node_token.simps up \<open>dropWhile isword u = b # r\<close> list.case
                      if_True nr [symmetric] simp_thms if_False)
              moreover have "run node_pattern s (i, []) = []"
                unfolding s2 r3 de Nil by simp
              ultimately show ?thesis by simp
            next
              case (Cons z rest)
              then have z: "z = CHR '']''"
                using hd_dropWhile [of notrb r] by (simp add: notrb_def)
              have "drop (Suc e) s = rest"
                using de Cons by (metis drop_Suc tl_drop list.sel(3))
              moreover have "e < length s"
                using de Cons by (metis drop_eq_Nil not_le list.discI)
              ultimately have le: "length s - length rest = Suc e"
                by (metis Suc_leI diff_diff_cancel length_drop)
              have "spec_node_token (drop i s) =
                      Some ((c # takeWhile isword u, takeWhile notrb r), rest)"
                unfolding d using False b
                by (simp only: spec_node_token.simps up \<open>dropWhile isword u = b # r\<close> list.case
                      if_True nr [symmetric] simp_thms Cons list.sel list.distinct)
              moreover have "run node_pattern s (i, []) = [(Suc e, [(i, p), (Suc p, e)])]"
                unfolding s2 r3 de Cons z by simp
              ultimately show ?thesis
                using idl ll le by (simp del: length_Cons)
            qed
          qed
        qed
      qed
    qed
  qed
qed

lemma spec_node_token_shape:
  assumes "spec_node_token u = Some ((nid, label), rest)"
  shows "u = nid @ CHR ''['' # label @ CHR '']'' # rest"
proof (cases u)
  case Nil
  with assms show ?thesis by simp
next
  case (Cons c s)
  with assms obtain b r where d: "dropWhile isword s = b # r"
    by (auto split: if_splits list.splits)
  let ?n = "\<lambda>x. x \<noteq> CHR '']''"
  from assms Cons d have *: "b = CHR ''[''" "nid = c # takeWhile isword s"
    "label = takeWhile ?n r" "rest = tl (dropWhile ?n r)" "dropWhile ?n r \<noteq> []"
    by (auto split: if_splits)
  from *(5) have "hd (dropWhile ?n r) = CHR '']''"
    using hd_dropWhile [of ?n r] by simp
  with *(4,5) have "dropWhile ?n r = CHR '']'' # rest"
    by (cases "dropWhile ?n r") auto
  then have "r = label @ CHR '']'' # rest"
    using takeWhile_dropWhile_id [of ?n r] *(3) by simp
  moreover have "s = takeWhile isword s @ b # r"
    using takeWhile_dropWhile_id [of isword s] d by simp
  ultimately show ?thesis using Cons * by simp
qed

lemma node_matches:
  "i \<le> length s \<Longrightarrow>
   map (pair_texts s) (matches_from node_pattern s False i) = spec_node_tokens (drop i s)"
proof (induction "length s - i" arbitrary: i rule: less_induct)
  case less
  show ?case
  proof (cases "i < length s")
    case False
    with less.prems have i: "i = length s" by simp
    have "run node_pattern s (i, []) = []"
      using run_node_pattern [of i s] i by simp
    then have "match_at node_pattern s False i = None"
      by (simp add: match_at_False)
    then have "matches_from node_pattern s False i = []"
      using i by (simp add: matches_from_skip matches_from_beyond)
    then show ?thesis using i by (simp add: spec_node_tokens.simps)
  next
    case True
    then obtain c u where d: "drop i s = c # u"
      by (metis drop_Cons_nth)
    show ?thesis
    proof (cases "spec_node_token (drop i s)")
      case None
      then have "run node_pattern s (i, []) = []"
        using run_node_pattern [of i s] less.prems by simp
      then have "match_at node_pattern s False i = None"
        by (simp add: match_at_False)
      then have "matches_from node_pattern s False i = matches_from node_pattern s False (Suc i)"
        using less.prems by (rule matches_from_skip [rotated])
      moreover have "map (pair_texts s) (matches_from node_pattern s False (Suc i))
                     = spec_node_tokens (drop (Suc i) s)"
        using True by (intro less.hyps) auto
      moreover have "drop (Suc i) s = u"
        using d by (metis drop_Suc tl_drop list.sel(3))
      moreover have "spec_node_tokens (c # u) = spec_node_tokens u"
        using None d by (simp add: spec_node_tokens.simps)
      ultimately show ?thesis by (simp add: d)
    next
      case (Some t)
      then obtain nid label rest where t: "t = ((nid, label), rest)"
        by (metis prod.exhaust)
      let ?j = "length s - length rest"
      let ?g = "[(i, i + length nid), (Suc (i + length nid), Suc (i + length nid) + length label)]"
      have sh: "drop i s = nid @ CHR ''['' # label @ CHR '']'' # rest"
        using Some t by (intro spec_node_token_shape) simp
      have ls: "length s = i + length nid + length label + length rest + 2"
        using arg_cong [OF sh, of length] less.prems by simp
      have j: "i < ?j" "?j \<le> length s" "drop ?j s = rest"
      proof -
        show "i < ?j" "?j \<le> length s" using ls by auto
        have "?j = i + (length nid + length label + 2)" using ls by simp
        then have "drop ?j s = drop (length nid + length label + 2) (drop i s)"
          by (simp add: add.commute)
        then show "drop ?j s = rest" by (simp add: sh)
      qed
      have "run node_pattern s (i, []) = [(?j, ?g)]"
        using run_node_pattern [of i s] less.prems Some t by simp
      then have "match_at node_pattern s False i = Some (?j, ?g)"
        by (simp add: match_at_False)
      then have m: "matches_from node_pattern s False i =
                      (i, ?j, ?g) # matches_from node_pattern s False ?j"
        using matches_from_hit [of i s node_pattern False ?j ?g] less.prems j(1) by simp
      have ih: "map (pair_texts s) (matches_from node_pattern s False ?j)
                  = spec_node_tokens rest"
        using less.hyps [of ?j] j by simp
      have g1: "group_text s (i, i + length nid) = nid"
        by (simp add: group_text_def sh)
      have "drop (Suc (i + length nid)) s = label @ CHR '']'' # rest"
      proof -
        have "drop (Suc (i + length nid)) s = drop (Suc (length nid)) (drop i s)"
          by (simp add: add.commute)
        then show ?thesis by (simp add: sh)
      qed
      then have g2: "group_text s (Suc (i + length nid), Suc (i + length nid) + length label) = label"
        by (simp add: group_text_def)
      have "spec_node_tokens (c # u) = (nid, label) # spec_node_tokens rest"
        using Some t d by (simp add: spec_node_tokens.simps)
      then show ?thesis
        using m ih g1 g2 by (simp add: d pair_texts_def)
    qed
  qed
qed

section \<open>Lemmas on texts in canonical form\<close>



lemma strip_id:
  assumes "s \<noteq> []" "\<not> isspace (hd s)" "\<not> isspace (last s)"
  shows "strip s = s"
proof -
  have "lstrip s = s" using assms(1,2) by (cases s) (auto simp: lstrip_def)
  moreover have "rstrip s = s"
    using assms(1,3) by (cases "rev s") (auto simp: rstrip_def last_rev [symmetric] hd_rev)
  ultimately show ?thesis by (simp add: strip_def)
qed









section \<open>Lemmas on the tagged fence pattern\<close>

lemma lower_char_m: "lower_char c = CHR ''m'' \<Longrightarrow> \<not> isspace c"
proof -
  assume "lower_char c = CHR ''m''"
  then have "(of_char (lower_char c) :: nat) = 109" by simp
  then have "(of_char c :: nat) \<in> {109, 77}"
    unfolding of_char_lower_char by (auto split: if_splits)
  then show ?thesis by (auto simp: isspace_def Let_def)
qed

lemma mermaid_fence_re_unfold:
  "mermaid_fence_re = Seq (lit ''```'') (Seq (StarG isspace) (Seq (lit_i ''mermaid'') tail_re))"
  by (simp add: mermaid_fence_re_def tail_re_def)

lemma lower_mermaid: "lower ''mermaid'' = ''mermaid''"
  by code_simp

lemma run_mermaid_fence_re:
  "run mermaid_fence_re s (k, g) =
     (if opener (drop k s)
      then run tail_re s (k + 3 + length (takeWhile isspace (drop (k + 3) s)) + 7, g)
      else [])"
proof -
  let ?M = "Seq (lit_i ''mermaid'') tail_re"
  have no: "run ?M s (j, g') = []" if "j < length s" "isspace (s ! j)" for j g'
  proof -
    have "\<not> prefix (lower ''mermaid'') (lower (drop j s))"
    proof
      assume "prefix (lower ''mermaid'') (lower (drop j s))"
      then have "prefix ''mermaid'' (lower (drop j s))"
        unfolding lower_mermaid .
      then have "lower_char (s ! j) = CHR ''m''"
        using that(1) by (simp add: drop_Cons_nth lower_def)
      with that(2) lower_char_m show False by blast
    qed
    then show ?thesis by (simp add: run_Seq_lit_i)
  qed
  let ?K = "length (takeWhile isspace (drop (k + 3) s))"
  have a: "run (Seq (StarG isspace) ?M) s (k + 3, g) = run ?M s (k + 3 + ?K, g)"
    by (rule run_Seq_StarG_then) (rule no)
  have d: "drop (k + 3 + ?K) s = dropWhile isspace (drop 3 (drop k s))"
  proof -
    have "drop (k + 3 + ?K) s = drop ?K (drop (k + 3) s)" by (simp add: add.commute)
    also have "\<dots> = dropWhile isspace (drop (k + 3) s)" by (rule dropWhile_drop_takeWhile)
    finally show ?thesis by (simp add: add.commute)
  qed
  have l3: "length ''```'' = 3" and l7: "length ''mermaid'' = 7" by simp_all
  have s1: "run mermaid_fence_re s (k, g) =
      (if prefix ''```'' (drop k s) then run (Seq (StarG isspace) ?M) s (k + 3, g) else [])"
    unfolding mermaid_fence_re_unfold run_Seq_lit l3 ..
  have s2: "run ?M s (k + 3 + ?K, g) =
      (if prefix ''mermaid'' (lower (dropWhile isspace (drop 3 (drop k s))))
       then run tail_re s (k + 3 + ?K + 7, g) else [])"
    unfolding run_Seq_lit_i lower_mermaid l7 d ..
  show ?thesis
    unfolding s1 a s2 opener_def by simp
qed

lemma rev_take_drop_While: "rev (dropWhile P (rev t)) @ rev (takeWhile P (rev t)) = t"
proof -
  have "rev (takeWhile P (rev t) @ dropWhile P (rev t)) = rev (rev t)"
    by (simp only: takeWhile_dropWhile_id)
  then show ?thesis by (simp only: rev_append rev_rev_ident)
qed

lemma strip_decomp:
  "\<exists>B. s = takeWhile isspace s @ strip s @ B \<and> list_all isspace B
       \<and> (strip s = [] \<longrightarrow> B = [])
       \<and> (strip s \<noteq> [] \<longrightarrow> \<not> isspace (last (strip s)))"
proof -
  define t where "t = dropWhile isspace s"
  define B where "B = rev (takeWhile isspace (rev t))"
  have c: "strip s = rev (dropWhile isspace (rev t))"
    by (simp add: strip_def rstrip_def lstrip_def t_def)
  have t: "t = strip s @ B"
    unfolding c B_def by (rule rev_take_drop_While [symmetric])
  have "s = takeWhile isspace s @ t"
    unfolding t_def by simp
  then have s: "s = takeWhile isspace s @ strip s @ B"
    using t by simp
  have b: "list_all isspace B"
    unfolding B_def list_all_iff using set_takeWhileD by fastforce
  have e: "B = []" if "strip s = []"
  proof (cases t)
    case Nil
    then show ?thesis using t by simp
  next
    case (Cons x xs)
    then have "t \<noteq> []" by simp
    then have "\<not> isspace (hd t)" unfolding t_def by (rule hd_dropWhile)
    moreover have "t = B" using t that by simp
    ultimately show ?thesis using b Cons by (cases B) auto
  qed
  have l: "\<not> isspace (last (strip s))" if "strip s \<noteq> []"
  proof -
    have n: "dropWhile isspace (rev t) \<noteq> []" using that c by simp
    then have "\<not> isspace (hd (dropWhile isspace (rev t)))" by (rule hd_dropWhile)
    then show ?thesis using n unfolding c by (simp add: last_rev)
  qed
  show ?thesis using s b e l by blast
qed

lemma concat_first_hit:
  assumes "n \<le> N" "\<forall>m<n. h m = []" "h n = x # xs"
  shows "\<exists>ys. concat (map h [0..<Suc N]) = x # ys"
proof -
  have "[0..<n + (Suc N - n)] = [0..<n] @ [n..<n + (Suc N - n)]"
    by (rule upt_add_eq_append) simp
  then have "[0..<Suc N] = [0..<n] @ [n..<Suc N]"
    using assms(1) by simp
  moreover have "[n..<Suc N] = n # [Suc n..<Suc N]"
    using assms(1) by (simp add: upt_conv_Cons)
  ultimately have z: "[0..<Suc N] = [0..<n] @ n # [Suc n..<Suc N]" by simp
  have e: "concat (map h [0..<n]) = []"
    using assms(2) by simp
  have "concat (map h [0..<Suc N]) =
          concat (map h [0..<n]) @ h n @ concat (map h [Suc n..<Suc N])"
    unfolding z by simp
  then show ?thesis unfolding e assms(3) by simp
qed

lemma takeWhile_anychar: "takeWhile anychar xs = xs"
  by (induction xs) (auto simp: anychar_def)

lemma run_Seq_Grp_StarL_any:
  "run (Seq (Grp (StarL anychar)) r) s (q, g) =
     concat (map (\<lambda>m. run r s (q + m, g @ [(q, q + m)])) [0..<Suc (length s - q)])"
  by (simp add: run.simps(3,6,7) takeWhile_anychar comp_def)

lemma backtick_not_space: "\<not> isspace CHR 0x60"
  by (simp add: isspace_def)

lemma run_close:
  "run (Seq (StarG isspace) (Seq (lit ''```'') Eps)) s (j, g) =
     (if prefix ''```'' (dropWhile isspace (drop j s))
      then [(j + length (takeWhile isspace (drop j s)) + 3, g)] else [])"
proof -
  let ?C = "Seq (lit ''```'') Eps"
  have c: "run ?C s (i, g') = (if prefix ''```'' (drop i s) then [(i + 3, g')] else [])" for i g'
    by (simp add: run_Seq_lit run.simps(2))
  have no: "run ?C s (i, g') = []" if "i < length s" "isspace (s ! i)" for i g'
    using that backtick_not_space by (auto simp: c drop_Cons_nth)
  have "run (Seq (StarG isspace) ?C) s (j, g) =
          run ?C s (j + length (takeWhile isspace (drop j s)), g)"
    by (rule run_Seq_StarG_then) (rule no)
  moreover have "drop (j + length (takeWhile isspace (drop j s))) s = dropWhile isspace (drop j s)"
    by (metis add.commute drop_drop dropWhile_drop_takeWhile)
  ultimately show ?thesis by (simp add: c)
qed

lemma dropWhile_all: "list_all P xs \<Longrightarrow> \<not> P y \<Longrightarrow> dropWhile P (xs @ y # ys) = y # ys"
  by (induction xs) auto

lemma takeWhile_all: "list_all P xs \<Longrightarrow> \<not> P y \<Longrightarrow> takeWhile P (xs @ y # ys) = xs"
  by (induction xs) auto

lemma run_tail_re_first:
  assumes d: "drop p s = inn @ ''```'' @ rest"
      and nf: "\<not> sublist ''```'' (inn @ ''``'')"
  shows "\<exists>ys. run tail_re s (p, g) =
           (p + length inn + 3,
            g @ [(p + length (takeWhile isspace inn),
                  p + length (takeWhile isspace inn) + length (strip inn))]) # ys"
proof -
  let ?R3 = "Seq (StarG isspace) (Seq (lit ''```'') Eps)"
  let ?R2 = "Seq (Grp (StarL anychar)) ?R3"
  define A where "A = takeWhile isspace inn"
  define C where "C = strip inn"
  obtain B where inn: "inn = A @ C @ B" and B: "list_all isspace B"
    and Ce: "C = [] \<longrightarrow> B = []" and Cl: "C \<noteq> [] \<longrightarrow> \<not> isspace (last C)"
    using strip_decomp [of inn] unfolding A_def C_def by blast
  have Aws: "list_all isspace A"
    unfolding A_def list_all_iff using set_takeWhileD by fastforce
  define q where "q = p + length A"
  have plen: "p + length inn + 3 + length rest = length s"
    using arg_cong [OF d, of length] by simp
  have dq: "drop q s = C @ B @ ''```'' @ rest"
  proof -
    have "drop q s = drop (length A) (drop p s)" by (simp add: q_def add.commute)
    then show ?thesis by (simp add: d inn)
  qed
  text \<open>the first star stops at q\<close>
  have K2: "length (takeWhile isspace (drop p s)) = length A"
  proof -
    have "takeWhile isspace (inn @ CHR 0x60 # ''``'' @ rest) = takeWhile isspace inn"
      using backtick_not_space by (rule takeWhile_tail)
    then show ?thesis by (simp add: d A_def)
  qed
  have tr: "tail_re = Seq (StarG isspace) ?R2"
    by (simp add: tail_re_def)
  have r1: "run tail_re s (p, g) =
              concat (map (run ?R2 s) (map (\<lambda>k. (p + k, g)) (rev [0..<Suc (length A)])))"
    unfolding tr by (simp only: run.simps(3,5) K2)
  have r1': "run tail_re s (p, g) =
               run ?R2 s (q, g) @ concat (map (run ?R2 s) (map (\<lambda>k. (p + k, g)) (rev [0..<length A])))"
    unfolding r1 by (simp add: q_def)
  text \<open>the lazy group: nothing before the end of the content, the closing fence there\<close>
  let ?h = "\<lambda>m. run ?R3 s (q + m, g @ [(q, q + m)])"
  have r2: "run ?R2 s (q, g) = concat (map ?h [0..<Suc (length s - q)])"
    by (rule run_Seq_Grp_StarL_any)
  have miss: "?h m = []" if "m < length C" for m
  proof -
    have Cn: "C \<noteq> []" using that by auto
    define D where "D = dropWhile isspace (drop m C)"
    have "drop (q + m) s = drop m (drop q s)" by (simp add: add.commute)
    then have dm: "drop (q + m) s = drop m C @ B @ ''```'' @ rest"
      using that by (simp add: dq)
    have "last (drop m C) = last C" using that by simp
    then have "\<exists>x\<in>set (drop m C). \<not> isspace x"
      using Cl Cn that by (metis drop_eq_Nil last_in_set not_le)
    then have dw: "dropWhile isspace (drop (q + m) s) = D @ B @ ''```'' @ rest"
      unfolding dm D_def by (metis dropWhile_append1)
    have Dn: "D \<noteq> []"
      unfolding D_def using \<open>\<exists>x\<in>set (drop m C). \<not> isspace x\<close> by (simp add: dropWhile_eq_Nil_conv)
    have "\<not> prefix ''```'' (D @ B @ ''```'' @ rest)"
    proof
      assume pr: "prefix ''```'' (D @ B @ ''```'' @ rest)"
      have "take 3 (D @ B @ ''```'' @ rest) = take 3 (D @ B @ ''``'')"
        using Dn by (cases D) (simp_all add: take_Cons' )
      moreover have "take 3 (D @ B @ ''```'' @ rest) = ''```''"
      proof -
        from pr obtain zs where "D @ B @ ''```'' @ rest = ''```'' @ zs"
          unfolding prefix_def by blast
        then have "take 3 (D @ B @ ''```'' @ rest) = take 3 (''```'' @ zs)"
          by (rule arg_cong)
        then show ?thesis by simp
      qed
      ultimately have "prefix ''```'' (D @ B @ ''``'')"
        using take_is_prefix [of 3 "D @ B @ ''``''"] by simp
      then obtain ss where ss: "D @ B @ ''``'' = ''```'' @ ss"
        unfolding prefix_def by blast
      obtain E where E: "drop m C = E @ D"
        unfolding D_def by (metis takeWhile_dropWhile_id)
      define F where "F = take m C"
      have "C = F @ drop m C" unfolding F_def by simp
      then have CF: "C = F @ E @ D" unfolding E .
      have "inn @ ''``'' = (A @ F @ E) @ (D @ B @ ''``'')"
        unfolding inn by (subst CF) simp
      then have "inn @ ''``'' = (A @ F @ E) @ ''```'' @ ss"
        unfolding ss .
      then have "sublist ''```'' (inn @ ''``'')"
        unfolding sublist_def by blast
      with nf show False ..
    qed
    then show ?thesis by (simp only: run_close dw if_False)
  qed
  have hit: "?h (length C) = [(p + length inn + 3, g @ [(q, q + length C)])]"
  proof -
    have "drop (q + length C) s = drop (length C) (drop q s)" by (simp add: add.commute)
    then have dm: "drop (q + length C) s = B @ CHR 0x60 # ''``'' @ rest"
      by (simp add: dq)
    have dw: "dropWhile isspace (drop (q + length C) s) = ''```'' @ rest"
      unfolding dm using dropWhile_all [OF B backtick_not_space] by simp
    have tw: "length (takeWhile isspace (drop (q + length C) s)) = length B"
      unfolding dm using takeWhile_all [OF B backtick_not_space] by simp
    have "q + length C + length B = p + length inn"
      by (simp add: q_def inn)
    then show ?thesis
      by (simp add: run_close dw tw)
  qed
  have le: "length C \<le> length s - q"
    using arg_cong [OF dq, of length] by simp
  obtain ys where "concat (map ?h [0..<Suc (length s - q)]) =
                     (p + length inn + 3, g @ [(q, q + length C)]) # ys"
    using concat_first_hit [OF le, of ?h] miss hit by blast
  then show ?thesis
    unfolding r1' r2 by (simp add: q_def A_def C_def)
qed

lemma lower_char_backtick: "lower_char (CHR 0x60) = CHR 0x60"
  by code_simp

lemma prefix_before_foreign:
  assumes "prefix m (a @ b # c)" "b \<notin> set m"
  shows "prefix m a"
proof -
  from assms(1) consider "prefix m a" | us where "m = a @ us" "prefix us (b # c)" "us \<noteq> []"
    unfolding prefix_append by (cases "prefix m a") auto
  then show ?thesis
  proof cases
    case 1
    then show ?thesis .
  next
    case 2
    then have "hd us = b" by (cases us) auto
    with 2 have "b \<in> set m" by (cases us) auto
    with assms(2) show ?thesis ..
  qed
qed

lemma not_mermaid_backtick: "\<not> prefix ''mermaid'' (lower (CHR 0x60 # x))"
  by (simp add: lower_def lower_char_backtick)

lemma opener_local:
  assumes "v \<noteq> []" "opener (v @ ''```'' @ X)"
  shows "opener v"
proof -
  let ?u = "v @ ''```'' @ X"
  from assms(2) have p: "prefix ''```'' ?u"
    and m: "prefix ''mermaid'' (lower (dropWhile isspace (drop 3 ?u)))"
    by (auto simp: opener_def)
  have pv: "prefix ''```'' v"
  proof (rule ccontr)
    assume n: "\<not> prefix ''```'' v"
    with p obtain us where us: "''```'' = v @ us"
      unfolding prefix_append by blast
    have l: "3 = length v + length us" using arg_cong [OF us, of length] by simp
    have "us \<noteq> []" using us n by auto
    then have "length v < 3" using l by (cases us) auto
    moreover have "0 < length v" using assms(1) by simp
    ultimately consider "length v = 1" | "length v = 2" by linarith
    then have "\<exists>y. drop 3 ?u = CHR 0x60 # y"
    proof cases
      case 1
      then obtain a where "v = [a]" by (cases v) auto
      with us show ?thesis by simp
    next
      case 2
      then obtain a b where "v = [a, b]" by (cases v; cases "tl v") auto
      with us show ?thesis by simp
    qed
    then obtain y where "drop 3 ?u = CHR 0x60 # y" ..
    then have "dropWhile isspace (drop 3 ?u) = CHR 0x60 # y"
      using backtick_not_space by simp
    with m not_mermaid_backtick show False by simp
  qed
  then obtain w where v: "v = ''```'' @ w" unfolding prefix_def by blast
  have d3: "drop 3 ?u = w @ CHR 0x60 # ''``'' @ X" "drop 3 v = w" by (simp_all add: v)
  have "\<not> list_all isspace w"
  proof
    assume "list_all isspace w"
    then have "dropWhile isspace (drop 3 ?u) = CHR 0x60 # ''``'' @ X"
      unfolding d3 using backtick_not_space by (rule dropWhile_all)
    with m not_mermaid_backtick show False by simp
  qed
  then obtain x where "x \<in> set w" "\<not> isspace x" by (auto simp: list_all_iff)
  then have "dropWhile isspace (drop 3 ?u) = dropWhile isspace w @ CHR 0x60 # ''``'' @ X"
    unfolding d3 by (rule dropWhile_append1)
  with m have "prefix ''mermaid'' (lower (dropWhile isspace w) @ CHR 0x60 # lower (''``'' @ X))"
    by (simp add: lower_def lower_char_backtick)
  then have "prefix ''mermaid'' (lower (dropWhile isspace w))"
    by (rule prefix_before_foreign) simp
  then show ?thesis
    using pv by (simp add: opener_def d3)
qed

lemma no_opener_drop: "no_opener seg \<Longrightarrow> k < length seg \<Longrightarrow> \<not> opener (drop k seg)"
proof (induction seg arbitrary: k)
  case Nil
  then show ?case by simp
next
  case (Cons c seg)
  then show ?case by (cases k) auto
qed

lemma opener_empty: "\<not> opener []"
  by (simp add: opener_def)

lemma tag_shape:
  assumes "lower t = ''mermaid''"
  shows "length t = 7 \<and> \<not> isspace (hd t) \<and> t \<noteq> []"
proof -
  have l: "length t = 7" using arg_cong [OF assms, of length] by (simp add: lower_def)
  then obtain c r where t: "t = c # r" by (cases t) auto
  then have "lower_char c = CHR ''m''" using assms by (simp add: lower_def)
  then have "\<not> isspace c" by (rule lower_char_m)
  then show ?thesis using l t by simp
qed

lemma run_block:
  assumes d: "drop k s = ''```'' @ gp @ tg @ inn @ ''```'' @ rest"
      and g: "list_all isspace gp"
      and t: "lower tg = ''mermaid''"
      and nf: "\<not> sublist ''```'' (inn @ ''``'')"
  shows "\<exists>a ys. run mermaid_fence_re s (k, []) =
           (k + 3 + length gp + 7 + length inn + 3, [(a, a + length (strip inn))]) # ys
         \<and> group_text s (a, a + length (strip inn)) = strip inn"
proof -
  obtain c r where tg: "tg = c # r" and c: "\<not> isspace c" and l7: "length tg = 7"
    using tag_shape [OF t] by (cases tg) auto
  have d3: "drop 3 (drop k s) = gp @ c # (r @ inn @ ''```'' @ rest)"
    by (simp add: d tg)
  have dw: "dropWhile isspace (drop 3 (drop k s)) = tg @ inn @ ''```'' @ rest"
    unfolding d3 using dropWhile_all [OF g c] by (simp add: tg)
  have tw: "takeWhile isspace (drop (k + 3) s) = gp"
  proof -
    have "drop (k + 3) s = drop 3 (drop k s)" by (simp add: add.commute)
    then show ?thesis unfolding d3 using takeWhile_all [OF g c] by simp
  qed
  have "prefix ''mermaid'' (lower (tg @ inn @ ''```'' @ rest))"
    by (simp add: lower_append t)
  then have op: "opener (drop k s)"
    unfolding opener_def dw by (simp add: d)
  define p where "p = k + 3 + length gp + 7"
  have r: "run mermaid_fence_re s (k, []) = run tail_re s (p, [])"
    unfolding run_mermaid_fence_re tw p_def using op by simp
  have dp: "drop p s = inn @ ''```'' @ rest"
  proof -
    have "drop p s = drop (length tg) (drop (length gp) (drop 3 (drop k s)))"
      by (simp add: p_def l7 add.commute add.assoc)
    also have "drop 3 (drop k s) = gp @ tg @ inn @ ''```'' @ rest"
      by (simp add: d)
    finally show ?thesis by simp
  qed
  define a where "a = p + length (takeWhile isspace inn)"
  obtain ys where ys: "run tail_re s (p, []) =
      (p + length inn + 3, [] @ [(a, a + length (strip inn))]) # ys"
    using run_tail_re_first [OF dp nf, of "[]"] unfolding a_def by blast
  obtain B where B: "inn = takeWhile isspace inn @ strip inn @ B"
    using strip_decomp [of inn] by blast
  have "drop a s = drop (length (takeWhile isspace inn)) (drop p s)"
    by (simp add: a_def add.commute)
  also have "\<dots> = drop (length (takeWhile isspace inn))
                      (takeWhile isspace inn @ strip inn @ B @ ''```'' @ rest)"
    unfolding dp by (subst B) simp
  also have "\<dots> = strip inn @ B @ ''```'' @ rest" by simp
  finally have "group_text s (a, a + length (strip inn)) = strip inn"
    by (simp add: group_text_def)
  then show ?thesis
    using r ys by (simp add: p_def)
qed

lemma search_first:
  assumes "i \<le> k" "k \<le> length s"
      and "\<And>j. i \<le> j \<Longrightarrow> j < k \<Longrightarrow> run r s (j, []) = []"
      and "run r s (k, []) = (e, g) # ys" "e \<noteq> k"
  shows "search r s a i = Some (k, e, g)"
  using assms(1,3)
proof (induction "k - i" arbitrary: i a)
  case 0
  then have i: "i = k" by simp
  have "match_at r s a k = Some (e, g)"
    using assms(4,5) by (simp add: match_at_def)
  then show ?case using assms(2) i by (simp add: search_hit)
next
  case (Suc n)
  then have lt: "i < k" by simp
  then have "run r s (i, []) = []" using Suc.prems by simp
  then have "match_at r s a i = None" by (simp add: match_at_def)
  then have "search r s a i = search r s False (Suc i)"
    using lt assms(2) by (intro search_skip) auto
  also have "\<dots> = Some (k, e, g)"
    using Suc lt by (intro Suc.hyps) auto
  finally show ?case .
qed

lemma search_none_from:
  assumes "\<And>j. i \<le> j \<Longrightarrow> j \<le> length s \<Longrightarrow> run r s (j, []) = []"
  shows "search r s a i = None"
  using assms
proof (induction "Suc (length s) - i" arbitrary: i a)
  case 0
  then show ?case by (simp add: search_beyond)
next
  case (Suc n)
  then have i: "i \<le> length s" by simp
  then have "match_at r s a i = None"
    using Suc.prems by (simp add: match_at_def)
  then have "search r s a i = search r s False (Suc i)"
    using i by (rule search_skip [rotated])
  also have "\<dots> = None"
    using Suc by (intro Suc.hyps) auto
  finally show ?case .
qed

lemma run_fence_no_opener:
  "\<not> opener (drop j s) \<Longrightarrow> run mermaid_fence_re s (j, []) = []"
  by (simp add: run_mermaid_fence_re)

lemma matches_from_none:
  assumes "\<And>j. i \<le> j \<Longrightarrow> j \<le> length s \<Longrightarrow> run r s (j, []) = []"
  shows "matches_from r s a i = []"
  by (subst matches_from.simps) (simp add: search_none_from [OF assms])

lemma fence_matches:
  assumes "wf_doc bs rest"
  shows "map (group1 (pre @ render bs rest))
           (matches_from mermaid_fence_re (pre @ render bs rest) False (length pre)) =
         map (\<lambda>b. strip (inner b)) bs"
  using assms
proof (induction bs arbitrary: pre)
  case Nil
  then have no: "no_opener rest" by (simp add: wf_doc_def)
  have "run mermaid_fence_re (pre @ rest) (j, []) = []"
    if "length pre \<le> j" "j \<le> length (pre @ rest)" for j
  proof -
    have d: "drop j (pre @ rest) = drop (j - length pre) rest" using that by simp
    have "\<not> opener (drop (j - length pre) rest)"
    proof (cases "j - length pre < length rest")
      case True
      with no show ?thesis by (rule no_opener_drop)
    next
      case False
      then show ?thesis by (simp add: opener_empty)
    qed
    then show ?thesis unfolding d [symmetric] by (rule run_fence_no_opener)
  qed
  then have "matches_from mermaid_fence_re (pre @ rest) False (length pre) = []"
    by (rule matches_from_none)
  then show ?case by simp
next
  case (Cons b bs)
  then have wb: "wf_block b" and wd: "wf_doc bs rest"
    by (simp_all add: wf_doc_def)
  from wb have nb: "no_opener (before b)" and gs: "list_all isspace (gap b)"
    and tg: "lower (tag b) = ''mermaid''" and nf: "\<not> sublist ''```'' (inner b @ ''``'')"
    by (simp_all add: wf_block_def)
  define T where "T = pre @ render (b # bs) rest"
  define X where "X = gap b @ tag b @ inner b @ ''```'' @ render bs rest"
  define k where "k = length pre + length (before b)"
  have T: "T = pre @ before b @ ''```'' @ X"
    by (simp add: T_def X_def)
  have l7: "length (tag b) = 7" using tag_shape [OF tg] by simp
  have miss: "run mermaid_fence_re T (j, []) = []" if "length pre \<le> j" "j < k" for j
  proof -
    define v where "v = drop (j - length pre) (before b)"
    have vn: "v \<noteq> []" using that by (simp add: v_def k_def)
    have d: "drop j T = v @ ''```'' @ X" using that by (simp add: T v_def k_def)
    have "\<not> opener v"
      unfolding v_def using nb that by (intro no_opener_drop) (auto simp: k_def)
    then have "\<not> opener (v @ ''```'' @ X)"
      using opener_local [OF vn] by blast
    then show ?thesis unfolding d [symmetric] by (rule run_fence_no_opener)
  qed
  have dk: "drop k T = ''```'' @ gap b @ tag b @ inner b @ ''```'' @ render bs rest"
    by (simp add: T k_def X_def)
  define e where "e = k + 3 + length (gap b) + 7 + length (inner b) + 3"
  obtain a ys where hit: "run mermaid_fence_re T (k, []) =
        (e, [(a, a + length (strip (inner b)))]) # ys"
    and gt: "group_text T (a, a + length (strip (inner b))) = strip (inner b)"
    using run_block [OF dk gs tg nf] unfolding e_def by blast
  have kl: "k \<le> length T" by (simp add: T k_def)
  have ek: "e \<noteq> k" by (simp add: e_def)
  have "search mermaid_fence_re T False (length pre) =
          Some (k, e, [(a, a + length (strip (inner b)))])"
    using search_first [OF _ kl miss hit ek] by (simp add: k_def)
  then have m: "matches_from mermaid_fence_re T False (length pre) =
      (k, e, [(a, a + length (strip (inner b)))]) # matches_from mermaid_fence_re T False e"
    using ek by (subst matches_from.simps) simp
  define pre' where "pre' = pre @ before b @ ''```'' @ gap b @ tag b @ inner b @ ''```''"
  have T': "T = pre' @ render bs rest" by (simp add: T_def pre'_def)
  have e': "e = length pre'" by (simp add: e_def pre'_def k_def l7)
  have ih: "map (group1 T) (matches_from mermaid_fence_re T False e) =
              map (\<lambda>b. strip (inner b)) bs"
    unfolding T' e' using wd by (rule Cons.IH)
  have g1: "group1 T (k, e, [(a, a + length (strip (inner b)))]) = strip (inner b)"
    using gt by (simp add: group1_def)
  show ?case
    unfolding T_def [symmetric] m using ih g1 by simp
qed

lemma strip_hd: "strip s \<noteq> [] \<Longrightarrow> \<not> isspace (hd (strip s))"
proof -
  assume n: "strip s \<noteq> []"
  obtain B where B: "s = takeWhile isspace s @ strip s @ B"
    using strip_decomp [of s] by blast
  have "takeWhile isspace s @ dropWhile isspace s = takeWhile isspace s @ strip s @ B"
    using B by (metis takeWhile_dropWhile_id)
  then have d: "dropWhile isspace s = strip s @ B" by (simp only: same_append_eq)
  then have "dropWhile isspace s \<noteq> []" using n by simp
  then have "\<not> isspace (hd (dropWhile isspace s))" by (rule hd_dropWhile)
  then show ?thesis using n d by simp
qed

lemma strip_strip: "strip (strip s) = strip s"
proof (cases "strip s = []")
  case True
  have "strip [] = []" by (simp add: strip_def lstrip_def rstrip_def)
  then show ?thesis unfolding True .
next
  case False
  moreover have "\<not> isspace (last (strip s))"
    using strip_decomp [of s] False by blast
  ultimately show ?thesis using strip_hd [OF False] by (intro strip_id)
qed

lemma strategy1_render:
  assumes "wf_doc bs rest"
  shows "strategy1 (render bs rest) = contents bs"
proof -
  have "findall1 mermaid_fence_re (render bs rest) = map (\<lambda>b. strip (inner b)) bs"
    using fence_matches [OF assms, of "[]"]
    by (simp add: findall1_def group1_def [abs_def])
  then have "strategy1 (render bs rest) =
      map strip (filter (\<lambda>m. m \<noteq> [] \<and> strip m \<noteq> []) (map (\<lambda>b. strip (inner b)) bs))"
    by (simp add: strategy1_def)
  also have "\<dots> = contents bs"
    unfolding contents_def by (induction bs) (auto simp: strip_strip)
  finally show ?thesis .
qed

section \<open>Lemmas on texts without fence and keyword line\<close>

lemma run_mono: "(j, g') \<in> set (run r s (i, g)) \<Longrightarrow> i \<le> j"
proof (induction r arbitrary: i g j g')
  case (Seq a b)
  then obtain m where m: "m \<in> set (run a s (i, g))" "(j, g') \<in> set (run b s m)"
    by (auto simp: run.simps)
  obtain k h where "m = (k, h)" by (cases m)
  with m Seq.IH show ?case by (metis le_trans)
next
  case (Ahead r)
  then show ?case by (auto simp: run.simps split: if_splits)
qed (auto simp: run.simps split: if_splits)

lemma run_seqs_last_lit:
  "(e, g') \<in> set (run (seqs (rs @ [lit f])) s (i, g))
   \<Longrightarrow> \<exists>j. i \<le> j \<and> prefix f (drop j s)"
proof (induction rs arbitrary: i g)
  case Nil
  then have "run (Seq (lit f) Eps) s (i, g) \<noteq> []" by auto
  then have "prefix f (drop i s)" by (auto simp: run_Seq_lit split: if_splits)
  then show ?case by blast
next
  case (Cons r rs)
  then obtain m where m: "m \<in> set (run r s (i, g))"
    "(e, g') \<in> set (run (seqs (rs @ [lit f])) s m)"
    by (auto simp: run.simps)
  obtain k h where mk: "m = (k, h)" by (cases m)
  from m(1) mk have "i \<le> k" using run_mono by blast
  moreover from Cons.IH m(2) mk obtain j where "k \<le> j" "prefix f (drop j s)" by blast
  ultimately show ?case by (meson le_trans)
qed

lemma fence_pattern_sound:
  assumes "run (seqs (lit f # rs @ [lit f])) s (k, g) \<noteq> []"
  shows "prefix f (drop k s) \<and> (\<exists>j. k + length f \<le> j \<and> prefix f (drop j s))"
proof -
  have r: "run (seqs (lit f # rs @ [lit f])) s (k, g) =
             (if prefix f (drop k s) then run (seqs (rs @ [lit f])) s (k + length f, g) else [])"
    by (simp add: run_Seq_lit)
  with assms have p: "prefix f (drop k s)" by (auto split: if_splits)
  with assms r obtain e g' where "(e, g') \<in> set (run (seqs (rs @ [lit f])) s (k + length f, g))"
    by (cases "run (seqs (rs @ [lit f])) s (k + length f, g)") auto
  then show ?thesis using p run_seqs_last_lit by blast
qed

lemma find_str_first:
  "prefix f (drop k s) \<Longrightarrow> k \<le> length s \<Longrightarrow> \<exists>i\<le>k. find_str f s = Some i"
proof (induction s arbitrary: k)
  case Nil
  then show ?case by simp
next
  case (Cons c s)
  show ?case
  proof (cases "prefix f (c # s)")
    case True
    then show ?thesis by simp
  next
    case False
    with Cons.prems obtain k' where k: "k = Suc k'" by (cases k) auto
    with Cons.prems Cons.IH [of k'] obtain i where "i \<le> k'" "find_str f s = Some i" by auto
    with False k show ?thesis by auto
  qed
qed

lemma prefix_drop_sublist: "prefix f (drop n u) \<Longrightarrow> sublist f u"
proof -
  assume "prefix f (drop n u)"
  then obtain zs where "drop n u = f @ zs" unfolding prefix_def by blast
  then have "u = take n u @ f @ zs" by (metis append_take_drop_id)
  then show ?thesis unfolding sublist_def by blast
qed

lemma has_fenced_intro:
  assumes "f \<noteq> []" "prefix f (drop k s)" "k + length f \<le> j" "prefix f (drop j s)"
  shows "has_fenced f s"
proof -
  have "drop k s \<noteq> []" using assms(1,2) by auto
  then have "k \<le> length s" by simp
  with assms(2) obtain i where i: "i \<le> k" "find_str f s = Some i"
    using find_str_first by blast
  have "drop j s = drop (j - (i + length f)) (drop (i + length f) s)"
    using i(1) assms(3) by simp
  with assms(4) have "sublist f (drop (i + length f) s)"
    using prefix_drop_sublist by metis
  then show ?thesis using i(2) by (simp add: has_fenced_def contains_sublist)
qed

lemma no_fence_no_match:
  assumes "f \<noteq> []" "\<not> has_fenced f s"
  shows "matches_from (seqs (lit f # rs @ [lit f])) s a i = []"
proof (rule matches_from_none)
  fix j
  show "run (seqs (lit f # rs @ [lit f])) s (j, []) = []"
  proof (rule ccontr)
    assume "run (seqs (lit f # rs @ [lit f])) s (j, []) \<noteq> []"
    from fence_pattern_sound [OF this] assms show False
      using has_fenced_intro by blast
  qed
qed

lemma fence_patterns_shape:
  "mermaid_fence_re =
     seqs (lit ''```'' # [StarG isspace, lit_i ''mermaid'', StarG isspace, Grp (StarL anychar),
                          StarG isspace] @ [lit ''```''])"
  "generic_fence_re =
     seqs (lit ''```'' # [Alt (Seq (Cls isword) (StarG isword)) Eps, StarG isspace,
                          Grp (StarL anychar), StarG isspace] @ [lit ''```''])"
  "tilde_fence_re =
     seqs (lit ''~~~'' # [StarG isspace, Grp (StarL anychar), StarG isspace] @ [lit ''~~~''])"
  by (simp_all add: mermaid_fence_re_def generic_fence_re_def tilde_fence_re_def)

lemma lower_char_nl': "lower_char CHR ''\<newline>'' = CHR ''\<newline>''"
  by (simp add: lower_char_nl)

lemma in_run_Seq:
  "x \<in> set (run (Seq a b) s (i, g)) \<Longrightarrow> \<exists>m\<in>set (run a s (i, g)). x \<in> set (run b s m)"
  by (auto simp: run.simps(3))

lemma inline_no_match:
  assumes "\<not> keyword_line t"
  shows "run inline_re t (k, []) = []"
proof (rule ccontr)
  assume ne: "run inline_re t (k, []) \<noteq> []"
  let ?K = "Alt (lit_i ''flowchart'') (lit_i ''graph'')"
  have lf: "lower ''flowchart'' = ''flowchart''" and lg: "lower ''graph'' = ''graph''"
    by code_simp+
  from ne obtain x where "x \<in> set (run inline_re t (k, []))"
    by (cases "run inline_re t (k, [])") auto
  moreover obtain R where ir: "inline_re = Seq (Alt Bol (lit ''\<newline>'')) (Seq ?K R)"
    by (simp add: inline_re_def)
  ultimately obtain m where m: "m \<in> set (run (Alt Bol (lit ''\<newline>'')) t (k, []))"
    and x: "x \<in> set (run (Seq ?K R) t m)"
    using in_run_Seq by metis
  obtain j h where mj: "m = (j, h)" by (cases m)
  from x have "\<exists>y. y \<in> set (run ?K t m)"
    unfolding mj using in_run_Seq by blast
  from \<open>\<exists>y. y \<in> set (run ?K t m)\<close> have kw:
    "prefix ''flowchart'' (lower (drop j t)) \<or> prefix ''graph'' (lower (drop j t))"
    unfolding mj by (auto simp: run.simps(4) run_lit_i lf lg split: if_splits)
  from m mj consider "j = 0" | "prefix ''\<newline>'' (drop k t)" "j = k + 1"
    by (auto simp: run.simps(4,8) run_lit split: if_splits)
  then show False
  proof cases
    case 1
    with kw assms show False by (simp add: keyword_line_def Let_def)
  next
    case 2
    then obtain r where r: "drop k t = CHR ''\<newline>'' # r" by (auto simp: prefix_def)
    then have "drop j t = r" using 2(2) by (metis Suc_eq_plus1 drop_Suc tl_drop list.sel(3))
    with r have "lower (drop k t) = CHR ''\<newline>'' # lower (drop j t)"
      by (simp add: lower_def lower_char_nl')
    with kw have "prefix ''\<newline>flowchart'' (drop k (lower t)) \<or> prefix ''\<newline>graph'' (drop k (lower t))"
      by (simp add: lower_drop)
    then have "sublist ''\<newline>flowchart'' (lower t) \<or> sublist ''\<newline>graph'' (lower t)"
      using prefix_drop_sublist by blast
    with assms show False by (simp add: keyword_line_def Let_def contains_sublist)
  qed
qed

lemma extract_nothing:
  assumes "\<not> has_fenced ''```'' t" "\<not> has_fenced ''~~~'' t" "\<not> keyword_line t"
  shows "extract_mermaid_diagrams t = []"
proof -
  have m1: "matches_from mermaid_fence_re t False 0 = []"
    unfolding fence_patterns_shape using assms(1) by (intro no_fence_no_match) auto
  have m2: "matches_from generic_fence_re t False 0 = []"
    unfolding fence_patterns_shape using assms(1) by (intro no_fence_no_match) auto
  have m3: "matches_from tilde_fence_re t False 0 = []"
    unfolding fence_patterns_shape using assms(2) by (intro no_fence_no_match) auto
  have m4: "matches_from inline_re t False 0 = []"
    using inline_no_match [OF assms(3)] by (intro matches_from_none)
  show ?thesis
    by (simp add: extract_mermaid_diagrams_def strategy1_def strategy2_def strategy3_def
        findall1_def findall0_def m1 m2 m3 m4)
qed

section \<open>Lemmas on the lines of a sanitized text\<close>























section \<open>Theorems\<close>

subsection \<open>C7: progress aggregation\<close>

text \<open>
  C7. For every item sequence, the aggregation returns the number of items, the number
  of items marked completed, and the percentage \<open>completed / total * 100\<close> when there is
  at least one item and \<open>0\<close> when there is none; the empty sequence gives \<open>(0, 0, 0)\<close> and
  three items of which one is completed give \<open>(3, 1, 100/3)\<close>.
\<close>

theorem get_roadmap_progress_spec:
  "total_items (get_roadmap_progress its) = length its
   \<and> completed_items (get_roadmap_progress its) = length (filter is_completed its)
   \<and> progress_percentage (get_roadmap_progress its) =
       (if length its = 0 then 0
        else real (length (filter is_completed its)) / real (length its) * 100)
   \<and> get_roadmap_progress [] =
       \<lparr> total_items = 0, completed_items = 0, progress_percentage = 0, items = [] \<rparr>
   \<and> total_items (get_roadmap_progress
         [mk_item ''A'' False, mk_item ''B'' True, mk_item ''C'' False]) = 3
   \<and> completed_items (get_roadmap_progress
         [mk_item ''A'' False, mk_item ''B'' True, mk_item ''C'' False]) = 1
   \<and> progress_percentage (get_roadmap_progress
         [mk_item ''A'' False, mk_item ''B'' True, mk_item ''C'' False]) = 100 / 3"
  by (simp add: get_roadmap_progress_def Let_def is_completed_def mk_item_def)

subsection \<open>C8: the search directive\<close>

text \<open>
  C8, as amended. For every user message that begins, in any letter case, with
  \<^verbatim>\<open>search:\<close> or \<^verbatim>\<open>/search\<close> and whose remainder after these seven characters is not
  blank, \<^verbatim>\<open>chat\<close> calls the web search exactly once, with the remainder stripped as the
  query and six results at most. When that search returns no result, the enhanced message
  is the user message followed by the note that the search returned nothing (behind the
  settings block, if any), with no results section, and the prompt given to the model
  contains it.
\<close>

theorem chat_search_directive:
  assumes "prefix ''search:'' (lower m) \<or> prefix ''/search'' (lower m)"
      and "strip (drop 7 m) \<noteq> []"
  shows "searched (snd (snd (chat c w m sid us))) = searched w @ [(strip (drop 7 m), 6)]
       \<and> (web_search w (strip (drop 7 m)) 6 = [] \<longrightarrow>
            fst (chat_prepare c w m sid us) = settings_step us (m @ no_results_note)
            \<and> sublist (m @ no_results_note)
                 (conversation_text (fst (snd (chat_prepare c w m sid us)))))"
proof -
  have d: "detect_search_query m = Some (strip (drop 7 m))"
    using detect_search_query_prefix [OF assms(1)] assms(2) by simp
  have s1: "searched (snd (search_step w m)) = searched w @ [(strip (drop 7 m), 6)]"
    by (simp add: search_step_def d perform_web_search_def Let_def)
  have s2: "fst (search_step w m) = m @ no_results_note"
    if "web_search w (strip (drop 7 m)) 6 = []"
    using that by (simp add: search_step_def d perform_web_search_def Let_def)
  have s3: "sublist (m @ no_results_note)
              (conversation_text (fst (snd (chat_prepare c w m sid us))))"
    if e: "web_search w (strip (drop 7 m)) 6 = []"
  proof -
    obtain pre where pre: "settings_step us (m @ no_results_note) = pre @ m @ no_results_note"
      using settings_step_suffix by blast
    let ?c2 = "fst (snd (chat_prepare c w m sid us))"
    have "conversation_history ?c2 = conversation_history (init_conversation c w sid)
            @ [\<lparr>role = ''user'', content = pre @ m @ no_results_note\<rparr>]"
      by (simp add: chat_prepare_history chat_prepare_enhanced s2 [OF e] pre)
    then have "conversation_text ?c2 =
        (system_prompt ?c2 @ ''\<newline>\<newline>'' @ transcript (conversation_history (init_conversation c w sid))
          @ ''User: '' @ pre) @ (m @ no_results_note) @ (''\<newline>\<newline>'' @ ''Assistant:'')"
      by (simp add: conversation_text_def transcript_append)
    then show ?thesis unfolding sublist_def by blast
  qed
  show ?thesis
    using s1 s2 s3 by (simp add: chat_searched chat_prepare_enhanced)
qed

theorem chat_search_directive_witness:
  "searched (snd (snd (chat client0 world0 ''search: python testing frameworks'' None None))) =
     [(''python testing frameworks'', 6)]
   \<and> fst (chat_prepare client0 world0 ''search: python testing frameworks'' None None) =
       ''search: python testing frameworks'' @ no_results_note
   \<and> sublist (''search: python testing frameworks'' @ no_results_note)
       (conversation_text
         (fst (snd (chat_prepare client0 world0 ''search: python testing frameworks'' None None))))"
proof -
  have a: "prefix ''search:'' (lower ''search: python testing frameworks'')
           \<or> prefix ''/search'' (lower ''search: python testing frameworks'')" by code_simp
  have s: "strip (drop 7 ''search: python testing frameworks'') = ''python testing frameworks''"
    by code_simp
  have n: "strip (drop 7 ''search: python testing frameworks'') \<noteq> []"
    unfolding s by simp
  have w: "web_search world0 ''python testing frameworks'' 6 = []"
    by (simp add: world0_def)
  have sw: "searched world0 = []"
    by (simp add: world0_def)
  note t = chat_search_directive [OF a n, of client0 world0 None None, unfolded s]
  show ?thesis
    using t w sw by (simp add: settings_step_def)
qed

text \<open>
  As stated, for every message that begins with a search prefix, the claim fails: when
  nothing but white space follows the prefix, \<^verbatim>\<open>_detect_search_query\<close> returns \<^verbatim>\<open>None\<close>
  and no search is made.
\<close>

theorem chat_search_directive_counterexample:
  "prefix ''search:'' (lower ''search:'')
   \<and> searched (snd (snd (chat client0 world0 ''search:'' None None))) = []
   \<and> searched world0 @ [(strip (drop 7 ''search:''), 6)] = [('''', 6)]"
proof -
  have a: "prefix ''search:'' (lower ''search:'')" by code_simp
  have d: "detect_search_query ''search:'' = None" by code_simp
  have s: "strip (drop 7 ''search:'') = []" by code_simp
  have "searched (snd (snd (chat client0 world0 ''search:'' None None))) = []"
    by (simp add: chat_searched search_step_def d) (simp add: world0_def)
  then show ?thesis using a s by (simp add: world0_def)
qed

subsection \<open>C9: a failure of the model becomes the reply\<close>

text \<open>
  C9. For every user message, if the generation collaborator raises on the prompt of the
  turn, \<^verbatim>\<open>chat\<close> returns, as its reply, the text \<^verbatim>\<open>Error generating response: \<close>
  followed by the text of the failure; nothing is raised to the caller.
\<close>

theorem chat_generation_failure_reply:
  assumes "generate_content w (conversation_text (fst (snd (chat_prepare c w m sid us)))) = Inl e"
  shows "fst (chat c w m sid us) = ''Error generating response: '' @ e"
proof -
  obtain em c2 w2 where p: "chat_prepare c w m sid us = (em, c2, w2)"
    by (cases "chat_prepare c w m sid us") auto
  have "generate_content w2 (conversation_text c2) = Inl e"
    using assms chat_prepare_generate [of c w m sid us] by (simp add: p)
  then show ?thesis
    by (simp add: chat_def p)
qed

theorem chat_generation_failure_reply_witness:
  "fst (chat client0 world0 ''hello'' None None) = ''Error generating response: quota exceeded''"
proof -
  have g: "generate_content world0
             (conversation_text (fst (snd (chat_prepare client0 world0 ''hello'' None None))))
           = Inl ''quota exceeded''"
    by (simp add: world0_def)
  show ?thesis
    using chat_generation_failure_reply [OF g] by simp
qed

subsection \<open>C10: the history after a failed turn\<close>

text \<open>
  C10, as amended. On every turn on which generation fails, \<^verbatim>\<open>chat\<close> appends exactly one
  entry, the enhanced user message with role \<^verbatim>\<open>user\<close>, to the conversation history as it
  stands after the opening step of the turn, and no assistant entry; the only message it
  saves is that user message (when persistence is on and a conversation is set). The
  opening step replaces the history in memory by the stored one when persistence is on, a
  session id is given, and either no conversation is set yet or the history in memory is
  empty; whenever persistence is off, or no session id is given, or a conversation is set
  and the history in memory is not empty, the history after the failed turn is the
  history before it plus that one user entry.
\<close>

theorem chat_failure_history:
  assumes "generate_content w (conversation_text (fst (snd (chat_prepare c w m sid us)))) = Inl e"
  shows "conversation_history (fst (snd (chat c w m sid us))) =
           conversation_history (init_conversation c w sid)
           @ [\<lparr>role = ''user'', content = fst (chat_prepare c w m sid us)\<rparr>]
       \<and> saved (snd (snd (chat c w m sid us))) =
           saved w @
           (if use_database (init_conversation c w sid) \<and> db (init_conversation c w sid)
               \<and> truthy (current_conversation_id (init_conversation c w sid))
            then [(the (current_conversation_id (init_conversation c w sid)), ''user'',
                   fst (chat_prepare c w m sid us))]
            else [])
       \<and> (\<not> (use_database c \<and> db c \<and> truthy sid)
            \<or> (truthy (current_conversation_id c) \<and> conversation_history c \<noteq> [])
          \<longrightarrow> conversation_history (fst (snd (chat c w m sid us))) =
                conversation_history c
                @ [\<lparr>role = ''user'', content = fst (chat_prepare c w m sid us)\<rparr>])"
proof -
  obtain em c2 w2 where p: "chat_prepare c w m sid us = (em, c2, w2)"
    by (cases "chat_prepare c w m sid us") auto
  have "generate_content w2 (conversation_text c2) = Inl e"
    using assms chat_prepare_generate [of c w m sid us] by (simp add: p)
  then have r: "chat c w m sid us = (''Error generating response: '' @ e, c2, w2)"
    by (simp add: chat_def p)
  have h: "conversation_history c2 = conversation_history (init_conversation c w sid)
             @ [\<lparr>role = ''user'', content = em\<rparr>]"
    using chat_prepare_history [of c w m sid us] by (simp add: p)
  have s: "saved w2 = saved w @
           (if use_database (init_conversation c w sid) \<and> db (init_conversation c w sid)
               \<and> truthy (current_conversation_id (init_conversation c w sid))
            then [(the (current_conversation_id (init_conversation c w sid)), ''user'', em)]
            else [])"
    using chat_prepare_saved [of c w m sid us] by (simp add: p)
  show ?thesis
    using h s init_conversation_same_history [of c sid w] by (simp add: r p)
qed

theorem chat_failure_history_witness:
  "conversation_history (fst (snd (chat client0 world0 ''hello'' None None))) =
     [\<lparr>role = ''user'', content = ''hello''\<rparr>]
   \<and> saved (snd (snd (chat client0 world0 ''hello'' None None))) = []"
proof -
  have g: "generate_content world0
             (conversation_text (fst (snd (chat_prepare client0 world0 ''hello'' None None))))
           = Inl ''quota exceeded''"
    by (simp add: world0_def)
  have i: "init_conversation client0 world0 None = client0"
    by (simp add: init_conversation_def client0_def)
  have e: "fst (chat_prepare client0 world0 ''hello'' None None) = ''hello''"
    by (simp add: chat_prepare_enhanced settings_step_def search_step_def) code_simp
  show ?thesis
    using chat_failure_history [OF g] by (simp add: i e) (simp add: client0_def world0_def)
qed

text \<open>
  As stated, with the history before the turn as the base, the claim fails: a client with
  persistence and no conversation yet loads the stored history in the same turn.
\<close>

theorem chat_failure_history_counterexample:
  "generate_content world0
     (conversation_text (fst (snd (chat_prepare client_db world0 ''hello'' (Some ''s1'') None))))
     = Inl ''quota exceeded''
   \<and> conversation_history (fst (snd (chat client_db world0 ''hello'' (Some ''s1'') None)))
     \<noteq> conversation_history client_db @ [\<lparr>role = ''user'', content = ''hello''\<rparr>]
   \<and> conversation_history (fst (snd (chat client_db world0 ''hello'' (Some ''s1'') None)))
     = [\<lparr>role = ''user'', content = ''hello''\<rparr>, \<lparr>role = ''assistant'', content = ''hi''\<rparr>,
        \<lparr>role = ''user'', content = ''hello''\<rparr>]"
proof -
  have g: "generate_content world0
             (conversation_text (fst (snd (chat_prepare client_db world0 ''hello'' (Some ''s1'') None))))
           = Inl ''quota exceeded''"
    by (simp add: world0_def)
  have d: "detect_search_query ''hello'' = None" by code_simp
  have p: "chat_prepare client_db world0 ''hello'' (Some ''s1'') None =
     (''hello'',
      client_db\<lparr>current_conversation_id := Some ''c1'',
                conversation_history :=
                  [\<lparr>role = ''user'', content = ''hello''\<rparr>, \<lparr>role = ''assistant'', content = ''hi''\<rparr>,
                   \<lparr>role = ''user'', content = ''hello''\<rparr>]\<rparr>,
      world0\<lparr>saved := [(''c1'', ''user'', ''hello'')]\<rparr>)"
    by (simp add: chat_prepare_def init_conversation_def set_conversation_id_def search_step_def d
        settings_step_def save_message_def client_db_def client0_def world0_def truthy_def Let_def)
  show ?thesis
    using g by (simp add: chat_def p) (simp add: world0_def client_db_def client0_def)
qed

subsection \<open>C2: the cascade of strategies\<close>

text \<open>
  C2. The extractor applies its three strategies in strict priority order and stops at
  the first that yields a candidate: whenever the first strategy yields one, the result
  is the list of the first strategy alone; whenever the second yields one, the result is
  that of the first or, when the first yields none, that of the second alone, so that the
  third contributes nothing; the third is the result only when both others yield none.
\<close>

theorem extract_cascade:
  "(strategy1 t \<noteq> [] \<longrightarrow> extract_mermaid_diagrams t = strategy1 t)
   \<and> (strategy2 t \<noteq> [] \<longrightarrow>
        extract_mermaid_diagrams t = (if strategy1 t \<noteq> [] then strategy1 t else strategy2 t))
   \<and> (strategy1 t = [] \<and> strategy2 t = [] \<longrightarrow> extract_mermaid_diagrams t = strategy3 t)"
proof (cases "t = []")
  case True
  then show ?thesis
    by (simp add: extract_mermaid_diagrams_def strategies_empty_text)
next
  case False
  then show ?thesis
    by (simp add: extract_mermaid_diagrams_def Let_def)
qed

theorem extract_cascade_witness:
  "strategy1 cascade_text = [''A-->B'']
   \<and> strategy2 cascade_text = [''A-->B'', ''C-->D'']
   \<and> strategy3 cascade_text = [''graph x'']
   \<and> extract_mermaid_diagrams cascade_text = [''A-->B'']"
proof -
  have s1: "strategy1 cascade_text = [''A-->B'']" by code_simp
  have s2: "strategy2 cascade_text = [''A-->B'', ''C-->D'']" by code_simp
  have s3: "strategy3 cascade_text = [''graph x'']" by code_simp
  show ?thesis
    using extract_cascade [of cascade_text] s1 s2 s3 by simp
qed

subsection \<open>C3: what sanitation returns\<close>




subsection \<open>C5: the default class definitions\<close>

text \<open>
  C5, as amended. For every non-empty candidate whose text after the header step contains
  \<^verbatim>\<open>:::\<close> and whose cleaned text before the header step contains \<^verbatim>\<open>classdef\<close> in no
  letter case, the output consists of the first line of the text after the header step,
  then exactly the five lines \<^verbatim>\<open>classDef foundation\<close>, \<^verbatim>\<open>core\<close>, \<^verbatim>\<open>practice\<close>,
  \<^verbatim>\<open>project\<close>, \<^verbatim>\<open>review\<close> with their fixed colours, then the remaining lines; and these
  five are the only lines of the output that contain \<^verbatim>\<open>classdef\<close>.
\<close>

theorem class_defs_injected:
  assumes "x \<noteq> []"
      and "\<not> contains ''classdef'' (lower (clean_lines x))"
      and "contains '':::'' (ensure_header (lower (clean_lines x)) (clean_lines x))"
  shows "\<exists>y. validate_and_clean_mermaid x = Some y
           \<and> split_nl y =
               take 1 (split_nl (ensure_header (lower (clean_lines x)) (clean_lines x)))
               @ [''classDef foundation fill:#4d94ff,color:#000,stroke:#333,stroke-width:2px'',
                  ''classDef core fill:#33cc33,color:#000,stroke:#333,stroke-width:2px'',
                  ''classDef practice fill:#ff9900,color:#000,stroke:#333,stroke-width:2px'',
                  ''classDef project fill:#9933ff,color:#fff,stroke:#333,stroke-width:2px'',
                  ''classDef review fill:#ff3333,color:#fff,stroke:#333,stroke-width:2px'']
               @ drop 1 (split_nl (ensure_header (lower (clean_lines x)) (clean_lines x)))
           \<and> length (take 1 (split_nl (ensure_header (lower (clean_lines x)) (clean_lines x)))) = 1
           \<and> length (filter (\<lambda>l. contains ''classdef'' (lower l)) (split_nl y)) = 5"
proof -
  let ?c = "clean_lines x"
  let ?h = "ensure_header (lower ?c) ?c"
  let ?y = "join ''\<newline>'' (insert_at1 color_defs (split_nl ?h))"
  let ?f = "filter (\<lambda>l. contains ''classdef'' (lower l))"
  have v: "validate_and_clean_mermaid x = Some ?y"
    using assms split_nl_nonempty [of ?h]
    by (simp add: validate_and_clean_mermaid_def add_class_defs_def Let_def)
  have l: "split_nl ?y = take 1 (split_nl ?h) @ split_nl color_defs @ drop 1 (split_nl ?h)"
    by (rule lines_after_insert)
  have n: "?f (split_nl ?h) = []"
    using header_lines_no_classdef [OF assms(2)] by (simp add: filter_empty_conv)
  have "?f (take 1 (split_nl ?h)) = []" "?f (drop 1 (split_nl ?h)) = []"
    using header_lines_no_classdef [OF assms(2)]
    by (auto simp: filter_empty_conv dest: in_set_takeD in_set_dropD)
  then have "?f (split_nl ?y) = split_nl color_defs"
    by (simp only: l filter_append color_defs_count append_Nil append_Nil2)
  then have c: "length (?f (split_nl ?y)) = 5"
    by (simp only: color_defs_count)
  have o: "length (take 1 (split_nl ?h)) = 1"
    using split_nl_nonempty [of ?h] by (cases "split_nl ?h") auto
  show ?thesis
    using v l c o unfolding color_defs_lines by blast
qed

theorem class_defs_injected_witness:
  "validate_and_clean_mermaid styled_text =
     Some (''graph TD\<newline>'' @ color_defs @ ''\<newline>A[Start]:::core --> B[End]'')
   \<and> length (filter (\<lambda>l. contains ''classdef'' (lower l))
        (split_nl (''graph TD\<newline>'' @ color_defs @ ''\<newline>A[Start]:::core --> B[End]''))) = 5"
proof -
  have a: "styled_text \<noteq> []" by (simp add: styled_text_def)
  have b: "\<not> contains ''classdef'' (lower (clean_lines styled_text))" by code_simp
  have c: "contains '':::''
             (ensure_header (lower (clean_lines styled_text)) (clean_lines styled_text))"
    by code_simp
  have v: "validate_and_clean_mermaid styled_text =
             Some (''graph TD\<newline>'' @ color_defs @ ''\<newline>A[Start]:::core --> B[End]'')"
    by code_simp
  from class_defs_injected [OF a b c] obtain y where
    y: "validate_and_clean_mermaid styled_text = Some y"
       "length (filter (\<lambda>l. contains ''classdef'' (lower l)) (split_nl y)) = 5"
    by blast
  from y(1) v have "y = ''graph TD\<newline>'' @ color_defs @ ''\<newline>A[Start]:::core --> B[End]''"
    by (simp only: option.inject)
  with y(2) v show ?thesis by blast
qed

text \<open>
  As stated, with one cleaned body for both tests, the claim fails in either reading.
  With the body before the header step: a marker that stands before the keyword is cut
  off with the text before the keyword, and nothing is inserted. With the body after the
  header step: the test for \<^verbatim>\<open>classdef\<close> reads the text before the header step, so a
  definition that was cut off still counts, and nothing is inserted.
\<close>

theorem class_defs_injected_counterexample:
  "contains '':::'' (clean_lines ''A:::core flowchart TD\<newline>B'')
   \<and> \<not> contains ''classdef'' (lower (clean_lines ''A:::core flowchart TD\<newline>B''))
   \<and> validate_and_clean_mermaid ''A:::core flowchart TD\<newline>B'' = Some ''flowchart TD\<newline>B''
   \<and> contains '':::''
        (ensure_header (lower (clean_lines ''classDef a fill:#fff\<newline>flowchart TD\<newline>A:::a''))
           (clean_lines ''classDef a fill:#fff\<newline>flowchart TD\<newline>A:::a''))
   \<and> \<not> contains ''classdef''
        (lower (ensure_header (lower (clean_lines ''classDef a fill:#fff\<newline>flowchart TD\<newline>A:::a''))
           (clean_lines ''classDef a fill:#fff\<newline>flowchart TD\<newline>A:::a'')))
   \<and> validate_and_clean_mermaid ''classDef a fill:#fff\<newline>flowchart TD\<newline>A:::a''
       = Some ''flowchart TD\<newline>A:::a''"
  by code_simp

subsection \<open>C6: the parser\<close>

text \<open>
  C6. The parser produces one item for each node-definition token (an identifier that
  starts with an uppercase letter and goes on with word characters, immediately followed
  by a label in square brackets), in the order of first appearance, with the identifier
  as id, the trimmed label as title and \<^verbatim>\<open>Complete: \<close> followed by the title as
  description; identifiers that occur twice give two items. On the diagram of the
  specification it yields exactly the items A and B, in that order.
\<close>

theorem parse_mermaid_diagram_spec:
  "parse_mermaid_diagram mermaid_code = spec_parse mermaid_code
   \<and> parse_mermaid_diagram
       ''flowchart TD\<newline>A[Learn Basics]\<newline>B[Build Project]\<newline>A-->B'' =
      [\<lparr>ident = ''A'', title = ''Learn Basics'', description = ''Complete: Learn Basics''\<rparr>,
       \<lparr>ident = ''B'', title = ''Build Project'', description = ''Complete: Build Project''\<rparr>]
   \<and> map ident (parse_mermaid_diagram ''A[x] A[y]'') = [''A'', ''A'']"
proof -
  have "findall2 node_pattern mermaid_code = spec_node_tokens mermaid_code"
    using node_matches [of 0 mermaid_code]
    by (simp add: findall2_def pair_texts_def [abs_def])
  then have "parse_mermaid_diagram mermaid_code = spec_parse mermaid_code"
    by (simp add: parse_mermaid_diagram_def spec_parse_def Let_def)
  moreover have "parse_mermaid_diagram
       ''flowchart TD\<newline>A[Learn Basics]\<newline>B[Build Project]\<newline>A-->B'' =
      [\<lparr>ident = ''A'', title = ''Learn Basics'', description = ''Complete: Learn Basics''\<rparr>,
       \<lparr>ident = ''B'', title = ''Build Project'', description = ''Complete: Build Project''\<rparr>]"
    by code_simp
  moreover have "map ident (parse_mermaid_diagram ''A[x] A[y]'') = [''A'', ''A'']"
    by code_simp
  ultimately show ?thesis by blast
qed

subsection \<open>C1: what the extractor returns\<close>

text \<open>
  C1, as amended. For every input text that consists of fenced blocks tagged mermaid (the
  tag in any letter case, after any white space behind the fence) with no fence marker in
  their inner content, and of text around them in which no tagged block opens, the first
  strategy returns the inner content of each block that is not blank, exactly once,
  trimmed of surrounding white space, in document order; when at least one block is not
  blank, this is what the extractor returns. And for every input text that contains no
  fenced block (no marker \<^verbatim>\<open>```\<close> or \<^verbatim>\<open>~~~\<close> followed by the same marker) and no line
  that begins with \<^verbatim>\<open>flowchart\<close> or \<^verbatim>\<open>graph\<close>, the extractor returns the empty
  sequence.
\<close>

theorem extract_fenced_mermaid:
  "(wf_doc bs rest \<longrightarrow>
      strategy1 (render bs rest) = contents bs
      \<and> (contents bs \<noteq> [] \<longrightarrow> extract_mermaid_diagrams (render bs rest) = contents bs))
   \<and> (\<not> has_fenced ''```'' t \<and> \<not> has_fenced ''~~~'' t \<and> \<not> keyword_line t \<longrightarrow>
        extract_mermaid_diagrams t = [])"
proof -
  have "extract_mermaid_diagrams (render bs rest) = contents bs"
    if w: "wf_doc bs rest" and c: "contents bs \<noteq> []"
  proof -
    have s: "strategy1 (render bs rest) = contents bs" using w by (rule strategy1_render)
    with c have "render bs rest \<noteq> []" using strategies_empty_text(1) by auto
    then show ?thesis using s c by (simp add: extract_mermaid_diagrams_def Let_def)
  qed
  then show ?thesis
    using strategy1_render extract_nothing by blast
qed

theorem extract_fenced_mermaid_witness:
  "extract_mermaid_diagrams (render sample_blocks ''\<newline>bye'') =
     [''graph TD\<newline>A-->B'', ''flowchart LR\<newline>C-->D'']
   \<and> extract_mermaid_diagrams ''One fence ``` and a graph of words.'' = []"
proof -
  have w: "wf_doc sample_blocks ''\<newline>bye''" by code_simp
  have c: "contents sample_blocks = [''graph TD\<newline>A-->B'', ''flowchart LR\<newline>C-->D'']"
    by code_simp
  have n: "\<not> has_fenced ''```'' ''One fence ``` and a graph of words.''
           \<and> \<not> has_fenced ''~~~'' ''One fence ``` and a graph of words.''
           \<and> \<not> keyword_line ''One fence ``` and a graph of words.''"
    by code_simp
  from extract_fenced_mermaid [of sample_blocks "''\<newline>bye''" "''One fence ``` and a graph of words.''"]
    w c n show ?thesis by simp
qed

text \<open>
  As stated, for each tagged block, the claim fails: the content of a blank block is not
  returned, and a text whose only tagged block is blank yields nothing.
\<close>

theorem extract_fenced_mermaid_counterexample:
  "wf_doc empty_block []
   \<and> render empty_block [] = ''```mermaid\<newline>```''
   \<and> map (\<lambda>b. strip (inner b)) empty_block = [[]]
   \<and> extract_mermaid_diagrams (render empty_block []) = []"
  by code_simp

subsection \<open>C4: sanitation of a sanitized text\<close>




end
